theory Spec2Isabelle
  imports Main "HOL-Library.Sublist"
begin

section \<open>Bytes\<close>

text \<open>
  A Go \<open>[]byte\<close> is a \<open>string\<close> (a list of 8-bit characters).  Where the source
  distinguishes a nil slice from an empty one, the slice is a \<open>string option\<close> and
  \<open>None\<close> is nil.
\<close>

abbreviation SP :: char where "SP \<equiv> CHR 0x20"
abbreviation TAB :: char where "TAB \<equiv> CHR 0x09"
abbreviation LF :: char where "LF \<equiv> CHR 0x0A"
abbreviation CR :: char where "CR \<equiv> CHR 0x0D"
abbreviation COMMA :: char where "COMMA \<equiv> CHR 0x2C"
abbreviation BSL :: char where "BSL \<equiv> CHR 0x5C"

section \<open>CompressSpaces\<close>

text \<open>The lookup table \<open>isSpaceDelimiter\<close>, set by \<open>init\<close> for the six delimiters.\<close>

definition isSpaceDelimiter :: "char \<Rightarrow> bool" where
  "isSpaceDelimiter ch \<longleftrightarrow> ch \<in> {LF, COMMA, CHR ''('', CHR '')'', BSL, CHR '':''}"

definition isBlank :: "char \<Rightarrow> bool" where
  "isBlank ch \<longleftrightarrow> ch = SP \<or> ch = TAB"

text \<open>
  The outer loop of \<open>CompressSpaces\<close>.  The first argument is the flag
  \<open>prevCharWasDelimiter\<close>, the second the remaining input; the result is what the
  loop appends to the output buffer from here on.  The inner loop that advances
  past a run of blanks is \<open>dropWhile isBlank\<close>.
\<close>

function compressLoop :: "bool \<Rightarrow> string \<Rightarrow> string" where
  "compressLoop prev [] = []"
| "compressLoop prev (c # cs) =
     (if isBlank c then
        (let rest = dropWhile isBlank (c # cs);
             nextCharIsDelimiter = (rest = [] \<or> isSpaceDelimiter (hd rest))
         in if prev \<or> nextCharIsDelimiter then compressLoop prev rest
            else SP # compressLoop prev rest)
      else c # compressLoop (isSpaceDelimiter c) cs)"
  by pat_completeness auto
termination
proof (relation "measure (\<lambda>(prev, input). length input)", goal_cases)
  case 1
  show ?case by simp
next
  case (2 prev c cs rest nxt)
  have "length (dropWhile isBlank cs) \<le> length cs" by (rule length_dropWhile_le)
  with 2 show ?case by simp
next
  case (3 prev c cs rest nxt)
  have "length (dropWhile isBlank cs) \<le> length cs" by (rule length_dropWhile_le)
  with 3 show ?case by simp
next
  case 4
  then show ?case by simp
qed

definition CompressSpaces :: "string \<Rightarrow> string" where
  "CompressSpaces input = (if length input = 0 then input else compressLoop False input)"

text \<open>
  The spec's condition for a run of blanks to vanish, in the spec's words: the byte
  before the run or the byte after it is a delimiter, or the run touches the start or the
  end of the input.  \<open>pre\<close> is the input before the run, \<open>post\<close> the input after it.
\<close>

definition runElidedSpec :: "string \<Rightarrow> string \<Rightarrow> bool" where
  "runElidedSpec pre post \<longleftrightarrow>
     pre = [] \<or> post = [] \<or> isSpaceDelimiter (last pre) \<or> isSpaceDelimiter (hd post)"

text \<open>
  What the loop does: the flag is false at the start of the input, so the start does not
  count as a delimiter, while the end of the input does.
\<close>

definition prevDelimiter :: "string \<Rightarrow> bool" where
  "prevDelimiter pre \<longleftrightarrow> pre \<noteq> [] \<and> isSpaceDelimiter (last pre)"

definition runElided :: "string \<Rightarrow> string \<Rightarrow> bool" where
  "runElided pre post \<longleftrightarrow> prevDelimiter pre \<or> post = [] \<or> isSpaceDelimiter (hd post)"

text \<open>
  The output for \<open>pre @ run @ post\<close> when the run is replaced by nothing
  (\<open>elided\<close>) or by one space: the output for \<open>pre\<close>, the run's contribution, and
  the output of the loop resumed at \<open>post\<close>.
\<close>

definition runOutput :: "string \<Rightarrow> string \<Rightarrow> bool \<Rightarrow> string" where
  "runOutput pre post elided =
     CompressSpaces pre @ (if elided then [] else [SP]) @ compressLoop (prevDelimiter pre) post"

definition maximalRun :: "string \<Rightarrow> string \<Rightarrow> string \<Rightarrow> bool" where
  "maximalRun pre ws post \<longleftrightarrow>
     ws \<noteq> [] \<and> list_all isBlank ws \<and>
     (pre = [] \<or> \<not> isBlank (last pre)) \<and> (post = [] \<or> \<not> isBlank (hd post))"

section \<open>ScrubBadUTF8\<close>

text \<open>
  \<open>utf8.DecodeRune\<close> of the Go standard library: the first code point of the input
  and its width in bytes.  An empty input gives \<open>(RuneError, 0)\<close>, an invalid encoding
  gives \<open>(RuneError, 1)\<close>.  The first byte fixes the width and the range accepted for
  the second byte (the library's tables \<open>first\<close> and \<open>acceptRanges\<close>); every further
  byte is a continuation byte \<open>0x80..0xBF\<close>.
\<close>

definition byte :: "char \<Rightarrow> nat" where
  "byte c = of_char c"

definition RuneError :: nat where
  "RuneError = 0xFFFD"

fun DecodeRune :: "string \<Rightarrow> nat \<times> nat" where
  "DecodeRune [] = (RuneError, 0)"
| "DecodeRune (p0 # ps) =
     (let b0 = byte p0 in
      if b0 < 0x80 then (b0, 1)
      else if b0 < 0xC2 \<or> 0xF4 < b0 then (RuneError, 1)
      else
        let sz = (if b0 < 0xE0 then 2 else if b0 < 0xF0 then 3 else (4::nat));
            lo = (if b0 = 0xE0 then 0xA0 else if b0 = 0xF0 then 0x90 else 0x80);
            hi = (if b0 = 0xED then 0x9F else if b0 = 0xF4 then 0x8F else 0xBF)
        in if length (p0 # ps) < sz then (RuneError, 1)
           else
             let b1 = byte (ps ! 0) in
             if b1 < lo \<or> hi < b1 then (RuneError, 1)
             else if sz \<le> 2 then ((b0 mod 0x20) * 0x40 + b1 mod 0x40, 2)
             else
               let b2 = byte (ps ! 1) in
               if b2 < 0x80 \<or> 0xBF < b2 then (RuneError, 1)
               else if sz \<le> 3 then
                 ((b0 mod 0x10) * 0x1000 + (b1 mod 0x40) * 0x40 + b2 mod 0x40, 3)
               else
                 let b3 = byte (ps ! 2) in
                 if b3 < 0x80 \<or> 0xBF < b3 then (RuneError, 1)
                 else ((b0 mod 0x08) * 0x40000 + (b1 mod 0x40) * 0x1000
                       + (b2 mod 0x40) * 0x40 + b3 mod 0x40, 4))"

text \<open>\<open>runeErrorByte\<close>: the UTF-8 encoding of U+FFFD.\<close>

definition runeErrorByte :: string where
  "runeErrorByte = [CHR 0xEF, CHR 0xBF, CHR 0xBD]"

text \<open>
  The loop of \<open>ScrubBadUTF8\<close>, with the remaining input and the output buffer.  The
  branch for \<open>RuneError\<close> writes the replacement and continues without advancing
  the input, as the source does.  The loop need not return, so it is a partial function:
  \<open>None\<close> stands for a call that never returns.
\<close>

partial_function (option) scrubLoop :: "string \<Rightarrow> string \<Rightarrow> string option" where
  "scrubLoop input out =
     (if length input \<noteq> 0 then
        (case DecodeRune input of (r, w) \<Rightarrow>
           if r = RuneError then scrubLoop input (out @ runeErrorByte)
           else scrubLoop (drop w input) (out @ take w input))
      else Some out)"

text \<open>
  The argument is a slice that may be nil (\<open>None\<close>).  The outer \<open>option\<close> of the
  result is \<open>None\<close> when the call never returns; the inner one is the returned slice.
\<close>

definition ScrubBadUTF8 :: "string option \<Rightarrow> string option option" where
  "ScrubBadUTF8 input =
     (case input of None \<Rightarrow> Some None
      | Some bytes \<Rightarrow> map_option Some (scrubLoop bytes []))"

section \<open>Line classification\<close>

text \<open>
  The character classes of Go's regular expressions, which are ASCII only:
  \<open>\d\<close> is \<open>[0-9]\<close>, \<open>\w\<close> is \<open>[0-9A-Za-z_]\<close>, \<open>\s\<close> is
  \<open>[\t\n\f\r ]\<close>.
\<close>

definition isDigit :: "char \<Rightarrow> bool" where
  "isDigit c \<longleftrightarrow> c \<in> set ''0123456789''"

definition isWordChar :: "char \<Rightarrow> bool" where
  "isWordChar c \<longleftrightarrow>
     c \<in> set ''0123456789ABCDEFGHIJKLMNOPQRSTUVWXYZ_abcdefghijklmnopqrstuvwxyz''"

definition isSpaceChar :: "char \<Rightarrow> bool" where
  "isSpaceChar c \<longleftrightarrow> c \<in> {TAB, LF, CHR 0x0C, CR, SP}"

text \<open>
  A pattern that is a fixed sequence of literals and character classes, anchored at the
  start of the line: one predicate for each byte.  \<open>Match\<close> on such a pattern holds
  when the line starts with bytes that satisfy the predicates in order.
\<close>

definition lit :: "string \<Rightarrow> (char \<Rightarrow> bool) list" where
  "lit s = map (\<lambda>a c. c = a) s"

fun matchSeq :: "(char \<Rightarrow> bool) list \<Rightarrow> string \<Rightarrow> bool" where
  "matchSeq [] s = True"
| "matchSeq (p # ps) [] = False"
| "matchSeq (p # ps) (c # cs) = (p c \<and> matchSeq ps cs)"

definition digits4 :: "(char \<Rightarrow> bool) list" where
  "digits4 = [isDigit, isDigit, isDigit, isDigit]"

text \<open>The unit header patterns, as \<open>^tribe \d{4},\<close> and its four siblings.\<close>

definition rxTribeHeader :: "string \<Rightarrow> bool" where
  "rxTribeHeader = matchSeq (lit ''tribe '' @ digits4 @ lit '','')"

definition rxCourierHeader :: "string \<Rightarrow> bool" where
  "rxCourierHeader = matchSeq (lit ''courier '' @ digits4 @ lit ''c'' @ [isDigit] @ lit '','')"

definition rxElementHeader :: "string \<Rightarrow> bool" where
  "rxElementHeader = matchSeq (lit ''element '' @ digits4 @ lit ''e'' @ [isDigit] @ lit '','')"

definition rxFleetHeader :: "string \<Rightarrow> bool" where
  "rxFleetHeader = matchSeq (lit ''fleet '' @ digits4 @ lit ''f'' @ [isDigit] @ lit '','')"

definition rxGarrisonHeader :: "string \<Rightarrow> bool" where
  "rxGarrisonHeader = matchSeq (lit ''garrison '' @ digits4 @ lit ''g'' @ [isDigit] @ lit '','')"

text \<open>
  \<open>^current turn \d{3,4}-\d{1,2}\(#\d+\),\<close>: three or four digits, a dash, one or two
  digits, \<open>(#\<close>, a run of at least one digit, \<open>),\<close>.  The byte after each run of
  digits is not a digit, so the run of \<open>\d+\<close> is the whole run of digits there.
\<close>

definition rxTurnHeader :: "string \<Rightarrow> bool" where
  "rxTurnHeader line \<longleftrightarrow>
     list_ex (\<lambda>k. list_ex (\<lambda>m.
        matchSeq (lit ''current turn '' @ replicate k isDigit @ lit ''-''
                  @ replicate m isDigit @ lit ''(#'' @ [isDigit]) line
        \<and> matchSeq (lit ''),'') (dropWhile isDigit (drop (13 + k + 1 + m + 2) line)))
       [1, 2]) [3, 4]"

text \<open>\<open>^(calm|mild|strong|gale) (ne|se|sw|nw|n|s) fleet movement:\<close>\<close>

definition rxFleetMovement :: "string \<Rightarrow> bool" where
  "rxFleetMovement line \<longleftrightarrow>
     list_ex (\<lambda>wind. list_ex (\<lambda>dir.
        matchSeq (lit (wind @ '' '' @ dir @ '' fleet movement:'')) line)
       [''ne'', ''se'', ''sw'', ''nw'', ''n'', ''s''])
       [''calm'', ''mild'', ''strong'', ''gale'']"

text \<open>\<open>^scout [1-8]:\<close>\<close>

definition rxScoutLine :: "string \<Rightarrow> bool" where
  "rxScoutLine = matchSeq (lit ''scout '' @ [\<lambda>c. c \<in> set ''12345678''] @ lit '':'')"

text \<open>The status patterns, as \<open>^\d{4} status:\<close> and \<open>^\d{4}c\d status:\<close>.\<close>

definition rxTribeStatus :: "string \<Rightarrow> bool" where
  "rxTribeStatus = matchSeq (digits4 @ lit '' status:'')"

definition rxCourierStatus :: "string \<Rightarrow> bool" where
  "rxCourierStatus = matchSeq (digits4 @ lit ''c'' @ [isDigit] @ lit '' status:'')"

definition rxElementStatus :: "string \<Rightarrow> bool" where
  "rxElementStatus = matchSeq (digits4 @ lit ''e'' @ [isDigit] @ lit '' status:'')"

definition rxFleetStatus :: "string \<Rightarrow> bool" where
  "rxFleetStatus = matchSeq (digits4 @ lit ''f'' @ [isDigit] @ lit '' status:'')"

definition rxGarrisonStatus :: "string \<Rightarrow> bool" where
  "rxGarrisonStatus = matchSeq (digits4 @ lit ''g'' @ [isDigit] @ lit '' status:'')"

definition IsFleetMovement :: "string \<Rightarrow> bool" where
  "IsFleetMovement line = rxFleetMovement line"

definition IsScoutLine :: "string \<Rightarrow> bool" where
  "IsScoutLine line = rxScoutLine line"

definition IsTribeFollows :: "string \<Rightarrow> bool" where
  "IsTribeFollows line = prefix ''tribe follows '' line"

definition IsTribeGoesTo :: "string \<Rightarrow> bool" where
  "IsTribeGoesTo line = prefix ''tribe goes to '' line"

definition IsTribeMovement :: "string \<Rightarrow> bool" where
  "IsTribeMovement line = prefix ''tribe movement:'' line"

definition IsMovementLine :: "string \<Rightarrow> bool" where
  "IsMovementLine line \<longleftrightarrow>
     IsTribeMovement line \<or> IsTribeFollows line \<or> IsTribeGoesTo line
     \<or> IsScoutLine line \<or> IsFleetMovement line"

definition IsTurnHeader :: "string \<Rightarrow> bool" where
  "IsTurnHeader line = rxTurnHeader line"

definition IsUnitHeader :: "string \<Rightarrow> bool" where
  "IsUnitHeader line \<longleftrightarrow>
     rxTribeHeader line \<or> rxCourierHeader line \<or> rxElementHeader line
     \<or> rxFleetHeader line \<or> rxGarrisonHeader line"

definition IsUnitStatus :: "string \<Rightarrow> bool" where
  "IsUnitStatus line \<longleftrightarrow>
     rxTribeStatus line \<or> rxCourierStatus line \<or> rxElementStatus line
     \<or> rxFleetStatus line \<or> rxGarrisonStatus line"

section \<open>SectionInput\<close>

text \<open>
  The struct \<open>Section\<close>, with the fields of its inner struct \<open>Moves\<close> side by side.
  A field of type \<open>[]byte\<close> is \<open>None\<close> while it is nil.
\<close>

record Section =
  Id :: int
  Header :: "string option"
  Turn :: "string option"
  Movement :: "string option"
  Follows :: "string option"
  GoesTo :: "string option"
  Fleet :: "string option"
  Scouts :: "string list"
  Status :: "string option"

text \<open>The struct literal \<open>&Section{Id: n, Header: line}\<close>: every other field is nil.\<close>

definition newSection :: "int \<Rightarrow> string \<Rightarrow> Section" where
  "newSection n line =
     \<lparr>Id = n, Header = Some line, Turn = None, Movement = None, Follows = None,
      GoesTo = None, Fleet = None, Scouts = [], Status = None\<rparr>"

text \<open>\<open>bytes.Split(input, []byte{'\n'})\<close>: one more line than there are line feeds.\<close>

function splitLines :: "string \<Rightarrow> string list" where
  "splitLines input =
     takeWhile (\<lambda>c. c \<noteq> LF) input
     # (case dropWhile (\<lambda>c. c \<noteq> LF) input of [] \<Rightarrow> [] | lf # rest \<Rightarrow> splitLines rest)"
  by pat_completeness auto
termination
proof (relation "measure length", goal_cases)
  case 1
  show ?case by simp
next
  case (2 input lf rest)
  have "length (dropWhile (\<lambda>c. c \<noteq> LF) input) \<le> length input"
    by (rule length_dropWhile_le)
  with 2 show ?case by simp
qed

declare splitLines.simps [simp del]

text \<open>
  The variable \<open>section\<close> points to the section appended last, and is nil until the
  first header: the current section is the last element of \<open>sections\<close>, and an
  assignment through the pointer updates that element.
\<close>

definition onCurrent :: "(Section \<Rightarrow> Section) \<Rightarrow> Section list \<Rightarrow> Section list" where
  "onCurrent f sections = butlast sections @ [f (last sections)]"

text \<open>One iteration of the loop over the lines, with the order of tests of the source.\<close>

definition sectionLine :: "Section list \<Rightarrow> string \<Rightarrow> Section list" where
  "sectionLine sections line =
     (if length line = 0 then sections
      else if IsUnitHeader line then
        sections @ [newSection (int (length sections) + 1) line]
      else if sections = [] then sections
      else if IsFleetMovement line then onCurrent (\<lambda>s. s\<lparr>Fleet := Some line\<rparr>) sections
      else if IsTribeFollows line then onCurrent (\<lambda>s. s\<lparr>Follows := Some line\<rparr>) sections
      else if IsTribeGoesTo line then onCurrent (\<lambda>s. s\<lparr>GoesTo := Some line\<rparr>) sections
      else if IsTribeMovement line then onCurrent (\<lambda>s. s\<lparr>Movement := Some line\<rparr>) sections
      else if IsScoutLine line then onCurrent (\<lambda>s. s\<lparr>Scouts := Scouts s @ [line]\<rparr>) sections
      else if IsTurnHeader line then onCurrent (\<lambda>s. s\<lparr>Turn := Some line\<rparr>) sections
      else if IsUnitStatus line then onCurrent (\<lambda>s. s\<lparr>Status := Some line\<rparr>) sections
      else sections)"

definition SectionInput :: "string \<Rightarrow> Section list" where
  "SectionInput input = foldl sectionLine [] (splitLines input)"

text \<open>
  The section that the spec describes for a header line \<open>h\<close> and the lines
  \<open>body\<close> that follow it up to the next header: each scalar field holds the last
  line of its kind (nil when there is none), \<open>Scouts\<close> holds every scout line in order.
\<close>

definition lastOf :: "(string \<Rightarrow> bool) \<Rightarrow> string list \<Rightarrow> string option" where
  "lastOf P ls = (if filter P ls = [] then None else Some (last (filter P ls)))"

definition sectionOf :: "int \<Rightarrow> string \<Rightarrow> string list \<Rightarrow> Section" where
  "sectionOf n h body =
     \<lparr>Id = n, Header = Some h,
      Turn = lastOf IsTurnHeader body,
      Movement = lastOf IsTribeMovement body,
      Follows = lastOf IsTribeFollows body,
      GoesTo = lastOf IsTribeGoesTo body,
      Fleet = lastOf IsFleetMovement body,
      Scouts = filter IsScoutLine body,
      Status = lastOf IsUnitStatus body\<rparr>"

text \<open>
  A code for the leading bytes of a line.  Each kind of line fixes the code, which is how
  the kinds are told apart in the proofs.
\<close>

definition leadKind :: "string \<Rightarrow> nat" where
  "leadKind l =
     (if isDigit (l ! 0) then 8
      else if l ! 0 = CHR ''t'' then
        (if l ! 6 = CHR ''f'' then 4 else if l ! 6 = CHR ''g'' then 5
         else if l ! 6 = CHR ''m'' then 6 else 1)
      else if l ! 0 = CHR ''c'' then
        (if l ! 1 = CHR ''u'' then 2 else if l ! 1 = CHR ''a'' then 3 else 1)
      else if l ! 0 = CHR ''s'' then (if l ! 1 = CHR ''c'' then 7 else 3)
      else if l ! 0 = CHR ''g'' then (if l ! 2 = CHR ''l'' then 3 else 1)
      else if l ! 0 = CHR ''m'' then 3
      else 1)"

text \<open>
  Scenario 3 of the spec: three header lines, each followed by the status line of its
  unit.
\<close>

definition scenario3 :: string where
  "scenario3 = ''tribe 0987,a'' @ LF # ''0987 status:x'' @ LF # ''garrison 0987g1,b'' @ LF #
     ''0987g1 status:y'' @ LF # ''fleet 0987f1,c'' @ LF # ''0987f1 status:z''"

section \<open>The step-list normalizer\<close>

subsection \<open>The patterns of the step-result scan\<close>

text \<open>
  \<open>\b\<close> after a word character: the match ends at the end of the input or before a
  byte that is not a word character.
\<close>

definition wordEnd :: "string \<Rightarrow> bool" where
  "wordEnd rest \<longleftrightarrow> rest = [] \<or> \<not> isWordChar (hd rest)"

text \<open>
  Each pattern is a function from the remaining input to the length of the match of
  \<open>Find\<close>, or \<open>None\<close> where \<open>Find\<close> returns nil.  The patterns are anchored, so
  a match starts at the first byte.  Alternatives are tried in the order of the pattern,
  and an optional group is tried before its omission.
\<close>

text \<open>\<open>^,(hsm|l|lcm|ljm|lsm|o)\b\<close>\<close>

definition edgeCodes :: "string list" where
  "edgeCodes = [''hsm'', ''l'', ''lcm'', ''ljm'', ''lsm'', ''o'']"

definition edgeCodePattern :: "string \<Rightarrow> nat option" where
  "edgeCodePattern step =
     (case step of
        [] \<Rightarrow> None
      | c # rest \<Rightarrow>
          if c = COMMA then
            map_option (\<lambda>code. 1 + length code)
              (find (\<lambda>code. prefix code rest \<and> wordEnd (drop (length code) rest)) edgeCodes)
          else None)"

text \<open>\<open>\d{4}([cefg]\d)?\b\<close> at the start of the input.\<close>

definition isUnitLetter :: "char \<Rightarrow> bool" where
  "isUnitLetter c \<longleftrightarrow> c \<in> set ''cefg''"

definition unitIDWord :: "string \<Rightarrow> nat option" where
  "unitIDWord s =
     (if matchSeq digits4 s then
        (if matchSeq [isUnitLetter, isDigit] (drop 4 s) \<and> wordEnd (drop 6 s) then Some 6
         else if wordEnd (drop 4 s) then Some 4
         else None)
      else None)"

text \<open>\<open>^,\d{4}([cefg]\d)?\b\<close>\<close>

definition unitIDPattern :: "string \<Rightarrow> nat option" where
  "unitIDPattern step =
     (case step of
        [] \<Rightarrow> None
      | c # rest \<Rightarrow> if c = COMMA then map_option Suc (unitIDWord rest) else None)"

text \<open>\<open>^[,\s]([ns][ew]?)\b\<close>\<close>

definition listDirectionPattern :: "string \<Rightarrow> nat option" where
  "listDirectionPattern step =
     (case step of
        c # d # rest \<Rightarrow>
          if (c = COMMA \<or> isSpaceChar c) \<and> d \<in> set ''ns'' then
            (if rest \<noteq> [] \<and> hd rest \<in> set ''ew'' \<and> wordEnd (tl rest) then Some 3
             else if wordEnd rest then Some 2
             else None)
          else None
      | _ \<Rightarrow> None)"

text \<open>\<open>^[,\s]\d{4}([cefg]\d)?\b\<close>\<close>

definition listUnitIDPattern :: "string \<Rightarrow> nat option" where
  "listUnitIDPattern step =
     (case step of
        [] \<Rightarrow> None
      | c # rest \<Rightarrow>
          if c = COMMA \<or> isSpaceChar c then map_option Suc (unitIDWord rest) else None)"

subsection \<open>scrubStepResults\<close>

text \<open>
  The scan writes to \<open>step[0]\<close> only, just before it advances past that byte, so every
  pattern is matched against bytes of the input that are still unchanged.  The model
  returns the bytes of \<open>step\<close> as they are when the scan is over.  The mode tells
  which loop is running: the outer loop over the results, or the inner loop over a list
  of direction codes or of unit IDs, which returns to the outer loop when the list ends.
\<close>

datatype scanMode = Results | Directions | UnitIDs

function scan :: "scanMode \<Rightarrow> string \<Rightarrow> string" where
  "scan Results step =
     (if length step > 0 then
        (case edgeCodePattern step of
           Some n \<Rightarrow> take n step @ scan Directions (drop n step)
         | None \<Rightarrow>
             (case unitIDPattern step of
                Some n \<Rightarrow> take n step @ scan UnitIDs (drop n step)
              | None \<Rightarrow>
                  hd step # takeWhile (\<lambda>c. c \<noteq> COMMA) (tl step)
                  @ scan Results (dropWhile (\<lambda>c. c \<noteq> COMMA) (tl step))))
      else [])"
| "scan Directions step =
     (case listDirectionPattern step of
        Some n \<Rightarrow> SP # take (n - 1) (tl step) @ scan Directions (drop n step)
      | None \<Rightarrow> scan Results step)"
| "scan UnitIDs step =
     (case listUnitIDPattern step of
        Some n \<Rightarrow> SP # take (n - 1) (tl step) @ scan UnitIDs (drop n step)
      | None \<Rightarrow> scan Results step)"
  by pat_completeness auto
termination
proof (relation "measure (\<lambda>(m, step). 2 * length step + (if m = Results then 0 else 1))",
    simp_all, goal_cases)
  case (1 step)
  have "length (dropWhile (\<lambda>c. c \<noteq> COMMA) (tl step)) \<le> length (tl step)"
    by (rule length_dropWhile_le)
  with 1 show ?case by (cases step) simp_all
next
  case (2 step n)
  then have "0 < n"
    by (auto simp: unitIDPattern_def split: list.splits if_splits)
  with 2 show ?case by (cases step) simp_all
next
  case (3 step n)
  then have "0 < n"
    by (auto simp: edgeCodePattern_def split: list.splits if_splits)
  with 3 show ?case by (cases step) simp_all
next
  case (4 step n)
  then have "0 < n \<and> step \<noteq> []"
    by (auto simp: listDirectionPattern_def split: list.splits if_splits)
  then show ?case by (cases step) simp_all
next
  case (5 step n)
  then have "0 < n \<and> step \<noteq> []"
    by (auto simp: listUnitIDPattern_def split: list.splits if_splits)
  then show ?case by (cases step) simp_all
qed

declare scan.simps [simp del]

definition scrubStepResults :: "string \<Rightarrow> string" where
  "scrubStepResults line =
     takeWhile (\<lambda>c. c \<noteq> COMMA) line @ scan Results (dropWhile (\<lambda>c. c \<noteq> COMMA) line)"

text \<open>
  A byte of the scanned line and the byte at the same place afterwards: unchanged, or a
  comma or whitespace byte that is now a space.
\<close>

definition sepRel :: "char \<Rightarrow> char \<Rightarrow> bool" where
  "sepRel x y \<longleftrightarrow> y = x \<or> ((x = COMMA \<or> isSpaceChar x) \<and> y = SP)"

text \<open>The relation, byte by byte, between a line and the scanned line.\<close>

abbreviation rel :: "string \<Rightarrow> string \<Rightarrow> bool" where
  "rel \<equiv> list_all2 sepRel"

text \<open>A byte that the scan never changes: neither a comma nor whitespace.\<close>

definition fixedByte :: "char \<Rightarrow> bool" where
  "fixedByte c \<longleftrightarrow> c \<noteq> COMMA \<and> \<not> isSpaceChar c"

subsection \<open>The step-list comma invariant\<close>

text \<open>
  A list of elements that starts at \<open>s\<close>, and is read with the element pattern of the
  inner loop, is free of commas when none of its elements is introduced by a comma.
\<close>

function listFreeOfCommas :: "scanMode \<Rightarrow> string \<Rightarrow> bool" where
  "listFreeOfCommas Results s = True"
| "listFreeOfCommas Directions s =
     (case listDirectionPattern s of
        None \<Rightarrow> True
      | Some n \<Rightarrow> hd s \<noteq> COMMA \<and> listFreeOfCommas Directions (drop n s))"
| "listFreeOfCommas UnitIDs s =
     (case listUnitIDPattern s of
        None \<Rightarrow> True
      | Some n \<Rightarrow> hd s \<noteq> COMMA \<and> listFreeOfCommas UnitIDs (drop n s))"
  by pat_completeness auto
termination
proof (relation "measure (\<lambda>(m, s). length s)", simp_all, goal_cases)
  case (1 s n)
  then have "0 < n \<and> s \<noteq> []"
    by (auto simp: listDirectionPattern_def split: list.splits if_splits)
  then show ?case by (cases s) simp_all
next
  case (2 s n)
  then have "0 < n \<and> s \<noteq> []"
    by (auto simp: listUnitIDPattern_def split: list.splits if_splits)
  then show ?case by (cases s) simp_all
qed

declare listFreeOfCommas.simps [simp del]

text \<open>
  A result that starts at \<open>s\<close> with an edge code or with a unit ID: the list of
  direction codes, or of unit IDs, that follows it is free of commas.
\<close>

definition resultFreeOfCommas :: "string \<Rightarrow> bool" where
  "resultFreeOfCommas s =
     (case edgeCodePattern s of
        Some n \<Rightarrow> listFreeOfCommas Directions (drop n s)
      | None \<Rightarrow>
          (case unitIDPattern s of
             Some n \<Rightarrow> listFreeOfCommas UnitIDs (drop n s)
           | None \<Rightarrow> True))"

text \<open>The invariant: it holds for the result that starts at any place of the line.\<close>

fun commaInvariant :: "string \<Rightarrow> bool" where
  "commaInvariant [] = True"
| "commaInvariant (c # cs) = (resultFreeOfCommas (c # cs) \<and> commaInvariant cs)"

subsection \<open>ReplaceAll and the patterns of the punctuation passes\<close>

text \<open>
  \<open>ReplaceAll\<close> of Go's \<open>regexp\<close> scans the input from left to right: where the
  pattern matches, the match is replaced and the scan goes on behind it; elsewhere the
  byte is copied.  A pattern is a function of the byte before the place (for \<open>\b\<close>)
  and the input from the place on; it returns the length of the match and the expanded
  replacement.  None of the patterns below matches the empty string; the test
  \<open>0 < n\<close> is there for the termination proof only.
\<close>

type_synonym pattern = "char option \<Rightarrow> string \<Rightarrow> (nat \<times> string) option"

function replaceAll :: "pattern \<Rightarrow> char option \<Rightarrow> string \<Rightarrow> string" where
  "replaceAll rx prev [] = []"
| "replaceAll rx prev (c # cs) =
     (case rx prev (c # cs) of
        None \<Rightarrow> c # replaceAll rx (Some c) cs
      | Some (n, repl) \<Rightarrow>
          if 0 < n then repl @ replaceAll rx (Some ((c # cs) ! (n - 1))) (drop n (c # cs))
          else c # replaceAll rx (Some c) cs)"
  by pat_completeness auto
termination
  by (relation "measure (\<lambda>(rx, prev, s). length s)") auto

definition ReplaceAll :: "pattern \<Rightarrow> string \<Rightarrow> string" where
  "ReplaceAll rx src = replaceAll rx None src"

text \<open>The length of the run of the byte \<open>ch\<close> at the start of the input.\<close>

definition runLength :: "char \<Rightarrow> string \<Rightarrow> nat" where
  "runLength ch s = length (takeWhile (\<lambda>c. c = ch) s)"

text \<open>\<open>\\+-+ *\<close>, replaced by a backslash.\<close>

definition reBackslashDash :: pattern where
  "reBackslashDash prev s =
     (let b = runLength BSL s; d = runLength (CHR ''-'') (drop b s);
          sp = runLength SP (drop (b + d) s)
      in if 0 < b \<and> 0 < d then Some (b + d + sp, [BSL]) else None)"

text \<open>\<open>\\+,+\<close>, replaced by a backslash.\<close>

definition reBackslashComma :: pattern where
  "reBackslashComma prev s =
     (let b = runLength BSL s; k = runLength COMMA (drop b s)
      in if 0 < b \<and> 0 < k then Some (b + k, [BSL]) else None)"

text \<open>\<open>,+\\\<close>, replaced by a backslash.\<close>

definition reCommaBackslash :: pattern where
  "reCommaBackslash prev s =
     (let k = runLength COMMA s
      in if 0 < k \<and> prefix [BSL] (drop k s) then Some (k + 1, [BSL]) else None)"

text \<open>\<open>\d{4}(?:[cefg]\d)?\<close> at the start of the input, with no \<open>\b\<close> behind it.\<close>

definition unitIDGroup :: "string \<Rightarrow> nat option" where
  "unitIDGroup s =
     (if matchSeq digits4 s then
        Some (if matchSeq [isUnitLetter, isDigit] (drop 4 s) then 6 else 4)
      else None)"

text \<open>\<open>\\+(\d{4}(?:[cefg]\d)?)\<close>, replaced by \<open>,$1\<close>.\<close>

definition reBackslashUnit :: pattern where
  "reBackslashUnit prev s =
     (let b = runLength BSL s
      in if 0 < b then
           (case unitIDGroup (drop b s) of
              None \<Rightarrow> None
            | Some k \<Rightarrow> Some (b + k, COMMA # take k (drop b s)))
         else None)"

text \<open>
  \<open>\b(ne|se|sw|nw|n|s) (\d{4}(?:[cefg]\d)?)\<close>, replaced by \<open>$1,$2\<close>.  The match
  starts with a word character, so \<open>\b\<close> holds when the byte before it is missing or
  is no word character.
\<close>

definition directionCodes :: "string list" where
  "directionCodes = [''ne'', ''se'', ''sw'', ''nw'', ''n'', ''s'']"

definition reDirectionUnit :: pattern where
  "reDirectionUnit prev s =
     (if (case prev of None \<Rightarrow> True | Some p \<Rightarrow> \<not> isWordChar p) then
        (case find (\<lambda>dir. prefix (dir @ [SP]) s
                       \<and> unitIDGroup (drop (length dir + 1) s) \<noteq> None) directionCodes of
           None \<Rightarrow> None
         | Some dir \<Rightarrow>
             (case unitIDGroup (drop (length dir + 1) s) of
                None \<Rightarrow> None
              | Some k \<Rightarrow>
                  Some (length dir + 1 + k, dir @ [COMMA] @ take k (drop (length dir + 1) s))))
      else None)"

text \<open>\<open>\\\\+\<close>, replaced by a backslash, and \<open>,,+\<close>, replaced by a comma.\<close>

definition reRunOfBackslashes :: pattern where
  "reRunOfBackslashes prev s =
     (let b = runLength BSL s in if 2 \<le> b then Some (b, [BSL]) else None)"

definition reRunOfComma :: pattern where
  "reRunOfComma prev s =
     (let k = runLength COMMA s in if 2 \<le> k then Some (k, [COMMA]) else None)"

text \<open>\<open>bytes.ReplaceAll(line, []byte{',', ')'}, []byte{')'})\<close>\<close>

definition commaParen :: pattern where
  "commaParen prev s = (if prefix [COMMA, CHR '')''] s then Some (2, [CHR '')'']) else None)"

text \<open>\<open>bytes.TrimRight(line, "\\")\<close>\<close>

definition TrimRightBackslash :: "string \<Rightarrow> string" where
  "TrimRightBackslash line = rev (dropWhile (\<lambda>c. c = BSL) (rev line))"

text \<open>
  A backslash next to a comma, in either order, and a backslash followed by a comma.
  A line is free of a kind of pair when no two neighbouring bytes form one.
\<close>

definition separatorPair :: "char \<Rightarrow> char \<Rightarrow> bool" where
  "separatorPair a b \<longleftrightarrow> (a = BSL \<and> b = COMMA) \<or> (a = COMMA \<and> b = BSL)"

definition backslashComma :: "char \<Rightarrow> char \<Rightarrow> bool" where
  "backslashComma a b \<longleftrightarrow> a = BSL \<and> b = COMMA"

fun pairFree :: "(char \<Rightarrow> char \<Rightarrow> bool) \<Rightarrow> string \<Rightarrow> bool" where
  "pairFree B (a # b # rest) = (\<not> B a b \<and> pairFree B (b # rest))"
| "pairFree B rest = True"

subsection \<open>PreProcessMovementLine\<close>

text \<open>
  \<open>PreProcessMovementLine\<close> as it stands in \<open>src/filters.go\<close>: the pass for
  commas followed by a backslash is there, a pass for backslashes followed by commas is
  not.
\<close>

definition PreProcessMovementLine_filters :: "string \<Rightarrow> string" where
  "PreProcessMovementLine_filters line0 =
     (let line = ReplaceAll reBackslashDash line0;
          line = ReplaceAll reCommaBackslash line;
          line = ReplaceAll reBackslashUnit line;
          line = ReplaceAll reDirectionUnit line;
          line = ReplaceAll reRunOfBackslashes line;
          line = ReplaceAll reRunOfComma line;
          line = ReplaceAll commaParen line;
          line = TrimRightBackslash line
      in line)"

text \<open>
  \<open>PreProcessMovementLine\<close> as it stands in \<open>src/unnamed/part_000\<close>, with both
  passes.
\<close>

definition PreProcessMovementLine_part_000 :: "string \<Rightarrow> string" where
  "PreProcessMovementLine_part_000 line0 =
     (let line = ReplaceAll reBackslashDash line0;
          line = ReplaceAll reBackslashComma line;
          line = ReplaceAll reCommaBackslash line;
          line = ReplaceAll reBackslashUnit line;
          line = ReplaceAll reDirectionUnit line;
          line = ReplaceAll reRunOfBackslashes line;
          line = ReplaceAll reRunOfComma line;
          line = ReplaceAll commaParen line;
          line = TrimRightBackslash line
      in line)"

subsection \<open>The scrubbers of the section fields\<close>

text \<open>The length and the bytes of a slice that may be nil.\<close>

definition len :: "string option \<Rightarrow> nat" where
  "len line = (case line of None \<Rightarrow> 0 | Some bytes \<Rightarrow> length bytes)"

definition bytesOf :: "string option \<Rightarrow> string" where
  "bytesOf line = (case line of None \<Rightarrow> [] | Some bytes \<Rightarrow> bytes)"

text \<open>The seven passes that the scrubbers of \<open>parse.go\<close> share.\<close>

definition punctuationPasses :: "string \<Rightarrow> string" where
  "punctuationPasses line0 =
     (let line = ReplaceAll reBackslashDash line0;
          line = ReplaceAll reBackslashComma line;
          line = ReplaceAll reCommaBackslash line;
          line = ReplaceAll reBackslashUnit line;
          line = ReplaceAll reDirectionUnit line;
          line = ReplaceAll reRunOfBackslashes line;
          line = ReplaceAll reRunOfComma line
      in line)"

definition scrubFleetLine :: "string option \<Rightarrow> string option" where
  "scrubFleetLine line =
     (if len line = 0 then line
      else Some (TrimRightBackslash (ReplaceAll commaParen (punctuationPasses (bytesOf line)))))"

definition scrubMovementLine :: "string option \<Rightarrow> string option" where
  "scrubMovementLine line =
     (if len line = 0 then line
      else Some (TrimRightBackslash (scrubStepResults (punctuationPasses (bytesOf line)))))"

definition scrubScoutLine :: "string \<Rightarrow> string" where
  "scrubScoutLine line =
     (if length line = 0 then line
      else TrimRightBackslash (scrubStepResults (punctuationPasses line)))"

definition scrubStatusLine :: "string option \<Rightarrow> string option" where
  "scrubStatusLine line =
     (if len line = 0 then line
      else Some (TrimRightBackslash (scrubStepResults (punctuationPasses (bytesOf line)))))"

text \<open>
  \<open>scrubFollowsLine\<close> removes the prefix and trims with \<open>bytes.TrimSpace\<close> of the
  Go standard library, which works on Unicode white space and returns nil for an empty
  result; it is a parameter here.
\<close>

definition TrimPrefix :: "string \<Rightarrow> string \<Rightarrow> string" where
  "TrimPrefix s pre = (if prefix pre s then drop (length pre) s else s)"

definition scrubFollowsLine :: "(string \<Rightarrow> string option) \<Rightarrow> string option \<Rightarrow> string option" where
  "scrubFollowsLine TrimSpace line =
     (if len line = 0 then line
      else TrimSpace (TrimPrefix (bytesOf line) ''tribe follows''))"

text \<open>\<open>scrubGoesToLine\<close> of \<open>parse.go\<close> returns the line as it is.\<close>

definition scrubGoesToLine :: "string option \<Rightarrow> string option" where
  "scrubGoesToLine line = (if len line = 0 then line else line)"

section \<open>The parsing entry points\<close>

text \<open>
  The sentinel errors of \<open>errors.go\<close>.  \<open>ErrForeign\<close> stands for an error value
  that is none of them, as the \<open>docx\<close> package may return.
\<close>

datatype Error =
    ErrEmptyInput
  | ErrInvalidElementId
  | ErrMissingElementHeader
  | ErrMissingField
  | ErrNotImplemented
  | ErrUnexpectedInput
  | ErrUnknownFormat
  | ErrForeign string

definition isascii :: "char \<Rightarrow> bool" where
  "isascii b \<longleftrightarrow> 0 < byte b \<and> byte b \<le> 127"

text \<open>The test at the head of \<open>ParseText\<close>.\<close>

definition textCheck :: "string \<Rightarrow> bool" where
  "textCheck input \<longleftrightarrow>
     length input > 3 \<and> isascii (input ! 0) \<and> isascii (input ! 1) \<and> isascii (input ! 2)"

text \<open>
  The check in the words of the spec: the input has three first bytes, and each is an
  ASCII byte.
\<close>

definition firstThreeBytesASCII :: "string \<Rightarrow> bool" where
  "firstThreeBytesASCII input \<longleftrightarrow>
     3 \<le> length input \<and> list_all (\<lambda>b. byte b \<le> 127) (take 3 input)"

text \<open>
  The functions of the Go standard library that \<open>ParseText\<close> calls and that work on
  Unicode text: \<open>bytes.ToLower\<close> and \<open>bytes.TrimSpace\<close>.  Both are total.
\<close>

record golib =
  ToLower :: "string \<Rightarrow> string"
  TrimSpace :: "string \<Rightarrow> string option"

text \<open>The body of the loop over the sections in \<open>ParseText\<close>.\<close>

definition scrubSection :: "golib \<Rightarrow> Section \<Rightarrow> Section" where
  "scrubSection lib section =
     section\<lparr>Movement := scrubMovementLine (Movement section),
             Follows := scrubFollowsLine (TrimSpace lib) (Follows section),
             GoesTo := scrubGoesToLine (GoesTo section),
             Fleet := scrubFleetLine (Fleet section),
             Scouts := map scrubScoutLine (Scouts section),
             Status := scrubStatusLine (Status section)\<rparr>"

text \<open>
  A result \<open>(sections, err)\<close> is \<open>Inl err\<close> when \<open>err\<close> is not nil (the sections
  are nil then, on every path) and \<open>Inr sections\<close> when it is nil.
\<close>

definition ParseText :: "golib \<Rightarrow> string \<Rightarrow> Error + Section list" where
  "ParseText lib input0 =
     (if \<not> textCheck input0 then Inl ErrUnknownFormat
      else
        let input = ToLower lib input0;
            input = CompressSpaces input;
            sections = SectionInput input
        in Inr (map (scrubSection lib) sections))"

text \<open>
  The package \<open>docx\<close> is not part of the sources at hand: whether the input is a Word
  document (\<open>docx.DetectWordDocType(input) == docx.Docx\<close>) and the text that
  \<open>docx.ReadBuffer\<close> extracts, or the error it returns, are parameters.
\<close>

record docxlib =
  IsDocx :: "string \<Rightarrow> bool"
  ReadBuffer :: "string \<Rightarrow> Error + string"

definition ParseDocx :: "golib \<Rightarrow> docxlib \<Rightarrow> string \<Rightarrow> Error + Section list" where
  "ParseDocx lib docx input =
     (if \<not> IsDocx docx input then Inl ErrUnknownFormat
      else
        (case ReadBuffer docx input of
           Inl err \<Rightarrow> Inl err
         | Inr text \<Rightarrow> ParseText lib text))"

text \<open>
  \<open>errors.Is(ErrUnknownFormat, err)\<close> compares the two values: the type
  \<open>Error\<close> has no \<open>Unwrap\<close> and no \<open>Is\<close> method.
\<close>

definition ParseSections :: "golib \<Rightarrow> docxlib \<Rightarrow> string \<Rightarrow> Error + Section list" where
  "ParseSections lib docx input =
     (if length input = 0 then Inl ErrEmptyInput
      else
        (case ParseDocx lib docx input of
           Inl err \<Rightarrow> if err = ErrUnknownFormat then ParseText lib input else Inl err
         | Inr sections \<Rightarrow> Inr sections))"

text \<open>
  Instances of the parameters for the examples: on ASCII input \<open>bytes.ToLower\<close> maps
  \<open>A..Z\<close> to \<open>a..z\<close> and \<open>bytes.TrimSpace\<close> removes the ASCII white space at both
  ends; the input is no Word document.
\<close>

definition asciiLower :: "string \<Rightarrow> string" where
  "asciiLower =
     map (\<lambda>c. case map_of (zip ''ABCDEFGHIJKLMNOPQRSTUVWXYZ'' ''abcdefghijklmnopqrstuvwxyz'') c of
                None \<Rightarrow> c | Some l \<Rightarrow> l)"

definition isAsciiSpace :: "char \<Rightarrow> bool" where
  "isAsciiSpace c \<longleftrightarrow> c \<in> {TAB, LF, CHR 0x0B, CHR 0x0C, CR, SP}"

definition asciiTrimSpace :: "string \<Rightarrow> string option" where
  "asciiTrimSpace s =
     (let t = rev (dropWhile isAsciiSpace (rev (dropWhile isAsciiSpace s)))
      in if t = [] then None else Some t)"

definition asciiLib :: golib where
  "asciiLib = \<lparr>ToLower = asciiLower, TrimSpace = asciiTrimSpace\<rparr>"

definition noDocx :: docxlib where
  "noDocx = \<lparr>IsDocx = (\<lambda>input. False), ReadBuffer = (\<lambda>input. Inl ErrNotImplemented)\<rparr>"

text \<open>A small report: a header line and a status line with a list of directions.\<close>

definition example_text :: string where
  "example_text = ''Tribe 0987,  a\<newline>0987 Status: X,L,N''"

section \<open>Properties of CompressSpaces\<close>

lemma compressLoop_idem: "compressLoop p (compressLoop p xs) = compressLoop p xs"
proof (induction p xs rule: compressLoop.induct)
  case (1 prev)
  show ?case by simp
next
  case (2 prev c cs)
  show ?case
  proof (cases "isBlank c")
    case False
    with 2 show ?thesis by simp
  next
    case True
    define rest where "rest = dropWhile isBlank (c # cs)"
    define nxt where "nxt = (rest = [] \<or> isSpaceDelimiter (hd rest))"
    show ?thesis
    proof (cases "prev \<or> nxt")
      case pn: True
      have eq: "compressLoop prev (c # cs) = compressLoop prev rest"
        using True pn by (simp add: rest_def nxt_def Let_def)
      have "compressLoop prev (compressLoop prev rest) = compressLoop prev rest"
        using "2.IH"(1)[OF True rest_def nxt_def pn] .
      with eq show ?thesis by simp
    next
      case pn: False
      have eq: "compressLoop prev (c # cs) = SP # compressLoop prev rest"
        using True pn by (simp add: rest_def nxt_def Let_def)
      have ih: "compressLoop prev (compressLoop prev rest) = compressLoop prev rest"
        using "2.IH"(2)[OF True rest_def nxt_def pn] .
      from pn obtain r rs where r: "rest = r # rs" "\<not> isSpaceDelimiter r"
        by (cases rest) (auto simp: nxt_def)
      have nb: "\<not> isBlank r"
        using r(1) hd_dropWhile[of isBlank "c # cs"] unfolding rest_def by fastforce
      have out: "compressLoop prev rest = r # compressLoop (isSpaceDelimiter r) rs"
        using r nb by simp
      have "compressLoop prev (SP # compressLoop prev rest)
            = SP # compressLoop prev (compressLoop prev rest)"
        using pn r nb by (simp add: out isBlank_def)
      with ih eq show ?thesis by simp
    qed
  qed
qed

text \<open>
  A prefix that ends in a non-blank byte is processed on its own; the loop then resumes
  behind it with the flag set from the prefix's last byte.
\<close>

lemma compressLoop_append:
  "pre \<noteq> [] \<Longrightarrow> \<not> isBlank (last pre) \<Longrightarrow>
   compressLoop p (pre @ rest) = compressLoop p pre @ compressLoop (isSpaceDelimiter (last pre)) rest"
proof (induction p pre rule: compressLoop.induct)
  case (1 prev)
  then show ?case by simp
next
  case (2 prev c cs)
  show ?case
  proof (cases "isBlank c")
    case False
    show ?thesis
    proof (cases "cs = []")
      case True
      with False show ?thesis by simp
    next
      case ne: False
      with False 2 show ?thesis by simp
    qed
  next
    case True
    define r where "r = dropWhile isBlank (c # cs)"
    have mem: "last (c # cs) \<in> set (c # cs)" by simp
    have dw: "dropWhile isBlank ((c # cs) @ rest) = r @ rest"
      unfolding r_def
      using dropWhile_append1[of "last (c # cs)" "c # cs" isBlank rest] mem "2.prems"(2)
      by blast
    have rne: "r \<noteq> []"
      unfolding r_def using mem "2.prems"(2) by (metis dropWhile_eq_Nil_conv)
    have lastr: "last r = last (c # cs)"
      using rne unfolding r_def
      by (metis append_Nil2 last_appendR takeWhile_dropWhile_id)
    have hdr: "hd (r @ rest) = hd r" using rne by simp
    define nxt where "nxt = (r = [] \<or> isSpaceDelimiter (hd r))"
    show ?thesis
    proof (cases "prev \<or> nxt")
      case pn: True
      have ih: "compressLoop prev (r @ rest)
                = compressLoop prev r @ compressLoop (isSpaceDelimiter (last r)) rest"
        using "2.IH"(1)[OF True r_def nxt_def pn rne] "2.prems"(2) lastr by simp
      have l: "compressLoop prev ((c # cs) @ rest) = compressLoop prev (r @ rest)"
        using True pn rne dw hdr by (simp add: nxt_def Let_def)
      have rr: "compressLoop prev (c # cs) = compressLoop prev r"
        using True pn by (simp add: nxt_def r_def Let_def)
      show ?thesis using l rr ih lastr by simp
    next
      case pn: False
      have ih: "compressLoop prev (r @ rest)
                = compressLoop prev r @ compressLoop (isSpaceDelimiter (last r)) rest"
        using "2.IH"(2)[OF True r_def nxt_def pn rne] "2.prems"(2) lastr by simp
      have l: "compressLoop prev ((c # cs) @ rest) = SP # compressLoop prev (r @ rest)"
        using True pn rne dw hdr by (simp add: nxt_def Let_def)
      have rr: "compressLoop prev (c # cs) = SP # compressLoop prev r"
        using True pn by (simp add: nxt_def r_def Let_def)
      show ?thesis using l rr ih lastr by simp
    qed
  qed
qed

lemma compressLoop_run:
  assumes "ws \<noteq> []" "\<forall>c \<in> set ws. isBlank c" "post = [] \<or> \<not> isBlank (hd post)"
  shows "compressLoop p (ws @ post)
         = (if p \<or> post = [] \<or> isSpaceDelimiter (hd post) then [] else [SP]) @ compressLoop p post"
proof -
  obtain w ws' where ws: "ws = w # ws'" using assms(1) by (cases ws) auto
  have "dropWhile isBlank (ws @ post) = dropWhile isBlank post"
    using assms(2) by (simp add: dropWhile_append2)
  also have "\<dots> = post" using assms(3) by (cases post) auto
  finally have dw: "dropWhile isBlank ((w # ws') @ post) = post" using ws by simp
  have "isBlank w" using assms(2) ws by simp
  then show ?thesis using dw unfolding ws by (simp add: Let_def)
qed

lemma CompressSpaces_run:
  assumes "maximalRun pre ws post"
  shows "CompressSpaces (pre @ ws @ post) = runOutput pre post (runElided pre post)"
proof -
  from assms have ws: "ws \<noteq> []" "\<forall>c \<in> set ws. isBlank c"
    and pre: "pre = [] \<or> \<not> isBlank (last pre)" and post: "post = [] \<or> \<not> isBlank (hd post)"
    by (auto simp: maximalRun_def list_all_iff)
  note run = compressLoop_run[OF ws post]
  show ?thesis
  proof (cases "pre = []")
    case True
    then show ?thesis
      using ws(1) run[of False]
      by (simp add: CompressSpaces_def runOutput_def runElided_def prevDelimiter_def)
  next
    case False
    with pre have nb: "\<not> isBlank (last pre)" by simp
    have "CompressSpaces (pre @ ws @ post) = compressLoop False (pre @ ws @ post)"
      using False by (simp add: CompressSpaces_def)
    also have "\<dots> = compressLoop False pre @ compressLoop (isSpaceDelimiter (last pre)) (ws @ post)"
      using compressLoop_append[OF False nb] .
    finally show ?thesis
      using False run[of "isSpaceDelimiter (last pre)"]
      by (simp add: CompressSpaces_def runOutput_def runElided_def prevDelimiter_def)
  qed
qed

text \<open>
  What the loop does with every maximal run of spaces and tabs of every input: the run
  contributes nothing to the output when the byte before it is a delimiter, the byte after
  it is a delimiter, or the run reaches the end of the input, and exactly one space
  otherwise.  The input of scenario 1 compresses to \<open>tribe 0123,status:active(good)\<close>.
\<close>

lemma CompressSpaces_runs:
  "(maximalRun pre ws post \<longrightarrow>
      CompressSpaces (pre @ ws @ post) = runOutput pre post (runElided pre post))
   \<and> CompressSpaces ''tribe   0123,   status:  active  ( good )''
       = ''tribe 0123,status:active(good)''"
proof
  show "maximalRun pre ws post \<longrightarrow>
      CompressSpaces (pre @ ws @ post) = runOutput pre post (runElided pre post)"
    using CompressSpaces_run by blast
  show "CompressSpaces ''tribe   0123,   status:  active  ( good )''
       = ''tribe 0123,status:active(good)''"
    by (simp add: CompressSpaces_def isBlank_def isSpaceDelimiter_def)
qed

lemma CompressSpaces_runs_example:
  "maximalRun ''a,'' [SP, TAB] ''b c''
   \<and> CompressSpaces (''a,'' @ [SP, TAB] @ ''b c'') = ''a,b c''
   \<and> runOutput ''a,'' ''b c'' (runElided ''a,'' ''b c'') = ''a,b c''"
proof -
  have m: "maximalRun ''a,'' [SP, TAB] ''b c''"
    by (simp add: maximalRun_def isBlank_def)
  have r: "runOutput ''a,'' ''b c'' (runElided ''a,'' ''b c'') = ''a,b c''"
    by (simp add: runOutput_def runElided_def prevDelimiter_def CompressSpaces_def
        isBlank_def isSpaceDelimiter_def)
  from CompressSpaces_runs[of "''a,''" "[SP, TAB]" "''b c''"] m r
  show ?thesis by simp
qed

text \<open>
  A run at the end of the input and a run after a delimiter, such as a newline, are
  discarded; a run at the start of the input, before a byte that is no delimiter, leaves
  a space.
\<close>

lemma CompressSpaces_trailing_run:
  assumes "maximalRun pre ws []"
  shows "CompressSpaces (pre @ ws) = CompressSpaces pre"
  using CompressSpaces_run[OF assms] by (simp add: runOutput_def runElided_def)

lemma CompressSpaces_run_after_delimiter:
  assumes "maximalRun pre ws post" "pre \<noteq> []" "isSpaceDelimiter (last pre)"
  shows "CompressSpaces (pre @ ws @ post) = CompressSpaces pre @ compressLoop True post"
  using CompressSpaces_run[OF assms(1)] assms(2,3)
  by (simp add: runOutput_def runElided_def prevDelimiter_def)

lemma CompressSpaces_leading_run:
  assumes "maximalRun [] ws post" "post \<noteq> []" "\<not> isSpaceDelimiter (hd post)"
  shows "CompressSpaces (ws @ post) = SP # CompressSpaces post"
  using CompressSpaces_run[OF assms(1)] assms(2,3)
  by (simp add: runOutput_def runElided_def prevDelimiter_def CompressSpaces_def)

text \<open>
  C2.  The claim says that a run of spaces and tabs that touches the start or the end of
  the input is discarded.  The loop starts with \<open>prevCharWasDelimiter\<close> false: the
  leading space of \<open>'' a''\<close> stays, where the run at the end of \<open>''a ''\<close> and the
  run after the newline, at the start of a line, are discarded.
\<close>

theorem C2_CompressSpaces_keeps_leading_run:
  "maximalRun [] [SP] ''a'' \<and> runElidedSpec [] ''a''
   \<and> CompressSpaces ([] @ [SP] @ ''a'') = '' a''
   \<and> CompressSpaces ([] @ [SP] @ ''a'') \<noteq> runOutput [] ''a'' (runElidedSpec [] ''a'')
   \<and> CompressSpaces (''a'' @ [SP] @ []) = ''a''
   \<and> CompressSpaces ([LF] @ [SP] @ ''a'') = [LF] @ ''a''"
  by (simp add: maximalRun_def runElidedSpec_def runOutput_def prevDelimiter_def
      CompressSpaces_def isBlank_def isSpaceDelimiter_def)

text \<open>
  C4.  \<open>CompressSpaces\<close> is idempotent: compressing a compressed byte sequence changes
  nothing.
\<close>

theorem C4_CompressSpaces_idempotent:
  "CompressSpaces (CompressSpaces x) = CompressSpaces x"
proof (cases "x = []")
  case True
  then show ?thesis by (simp add: CompressSpaces_def)
next
  case False
  show ?thesis
  proof (cases "compressLoop False x = []")
    case True
    with False show ?thesis by (simp add: CompressSpaces_def)
  next
    case ne: False
    with False show ?thesis by (simp add: CompressSpaces_def compressLoop_idem)
  qed
qed

section \<open>Properties of ScrubBadUTF8\<close>

text \<open>
  Where the next code point decodes to \<open>RuneError\<close>, the loop makes no progress: the
  input is the same in the next iteration, and the call never returns.
\<close>

lemma scrubLoop_stuck:
  assumes "input \<noteq> []" "fst (DecodeRune input) = RuneError"
  shows "scrubLoop input out = None"
proof -
  have "scrubLoop i out = Some y \<Longrightarrow> \<not> (i \<noteq> [] \<and> fst (DecodeRune i) = RuneError)"
    for i out y
  proof (rule scrubLoop.raw_induct
      [where P = "\<lambda>i out y. \<not> (i \<noteq> [] \<and> fst (DecodeRune i) = RuneError)"], goal_cases)
    case (1 f i' out' y')
    show ?case
    proof
      assume bad: "i' \<noteq> [] \<and> fst (DecodeRune i') = RuneError"
      obtain r w where rw: "DecodeRune i' = (r, w)" by (cases "DecodeRune i'")
      with bad have "r = RuneError" by simp
      with bad rw 1(3) have "f i' (out' @ runeErrorByte) = Some y'" by simp
      from 1(2)[OF this] bad show False by simp
    qed
  qed
  with assms show ?thesis by (cases "scrubLoop input out") auto
qed

text \<open>On ASCII input the loop returns, and copies the input.\<close>

lemma scrubLoop_ascii:
  "\<forall>c \<in> set input. byte c < 0x80 \<Longrightarrow> scrubLoop input out = Some (out @ input)"
proof (induction input arbitrary: out)
  case Nil
  show ?case by (subst scrubLoop.simps) simp
next
  case (Cons c cs)
  then have c: "byte c < 0x80" and ih: "\<And>out. scrubLoop cs out = Some (out @ cs)" by auto
  have d: "DecodeRune (c # cs) = (byte c, 1)" using c by (simp add: Let_def)
  have ne: "byte c \<noteq> RuneError" using c by (simp add: RuneError_def)
  show ?case
    by (subst scrubLoop.simps) (simp add: d ne ih del: DecodeRune.simps)
qed

lemma ScrubBadUTF8_nil: "ScrubBadUTF8 None = Some None"
  by (simp add: ScrubBadUTF8_def)

lemma ScrubBadUTF8_empty: "ScrubBadUTF8 (Some []) = Some (Some [])"
  by (simp add: ScrubBadUTF8_def scrubLoop.simps)

lemma ScrubBadUTF8_ascii:
  "\<forall>c \<in> set input. byte c < 0x80 \<Longrightarrow> ScrubBadUTF8 (Some input) = Some (Some input)"
  by (simp add: ScrubBadUTF8_def scrubLoop_ascii)

text \<open>
  The valid encoding of U+FFFD decodes to \<open>RuneError\<close> with width 3, so valid UTF-8
  that holds the replacement character is not returned unchanged: the call never returns.
\<close>

lemma ScrubBadUTF8_replacement_char:
  "ScrubBadUTF8 (Some [CHR 0xEF, CHR 0xBF, CHR 0xBD]) = None"
proof -
  have "fst (DecodeRune [CHR 0xEF, CHR 0xBF, CHR 0xBD]) = RuneError"
    by (simp add: byte_def Let_def RuneError_def)
  then show ?thesis by (simp add: ScrubBadUTF8_def scrubLoop_stuck)
qed

text \<open>
  C1.  The claim says that \<open>ScrubBadUTF8\<close> terminates on every input.  On the single
  invalid byte \<open>0xFF\<close> the call never returns: the loop appends the replacement
  character for ever.
\<close>

theorem C1_ScrubBadUTF8_invalid_byte_never_returns:
  "ScrubBadUTF8 (Some [CHR 0xFF]) = None"
proof -
  have "fst (DecodeRune [CHR 0xFF]) = RuneError"
    by (simp add: byte_def Let_def)
  then show ?thesis by (simp add: ScrubBadUTF8_def scrubLoop_stuck)
qed

section \<open>Properties of the line classification\<close>

lemma matchSeq_nthD:
  "matchSeq ps l \<Longrightarrow> i < length ps \<Longrightarrow> i < length l \<and> (ps ! i) (l ! i)"
proof (induction ps l arbitrary: i rule: matchSeq.induct)
  case (1 s)
  then show ?case by simp
next
  case (2 p ps)
  then show ?case by simp
next
  case (3 p ps c cs)
  then show ?case by (cases i) auto
qed

lemma prefix_nthD: "prefix s l \<Longrightarrow> i < length s \<Longrightarrow> i < length l \<and> l ! i = s ! i"
  by (auto simp: prefix_def nth_append)

lemma header_lead:
  assumes "IsUnitHeader l"
  shows "0 < length l \<and> ((l ! 0 = CHR ''t'' \<and> isDigit (l ! 6)) \<or> (l ! 0 = CHR ''c'' \<and> l ! 1 = CHR ''o'')
         \<or> l ! 0 = CHR ''e'' \<or> l ! 0 = CHR ''f'' \<or> (l ! 0 = CHR ''g'' \<and> l ! 2 = CHR ''r''))"
proof -
  consider "rxTribeHeader l" | "rxCourierHeader l" | "rxElementHeader l"
    | "rxFleetHeader l" | "rxGarrisonHeader l"
    using assms by (auto simp: IsUnitHeader_def)
  then show ?thesis
  proof cases
    case 1
    from matchSeq_nthD[OF 1[unfolded rxTribeHeader_def], of 0]
         matchSeq_nthD[OF 1[unfolded rxTribeHeader_def], of 6]
    show ?thesis by (simp add: lit_def digits4_def)
  next
    case 2
    from matchSeq_nthD[OF 2[unfolded rxCourierHeader_def], of 0]
         matchSeq_nthD[OF 2[unfolded rxCourierHeader_def], of 1]
    show ?thesis by (simp add: lit_def digits4_def)
  next
    case 3
    from matchSeq_nthD[OF 3[unfolded rxElementHeader_def], of 0]
    show ?thesis by (simp add: lit_def digits4_def)
  next
    case 4
    from matchSeq_nthD[OF 4[unfolded rxFleetHeader_def], of 0]
    show ?thesis by (simp add: lit_def digits4_def)
  next
    case 5
    from matchSeq_nthD[OF 5[unfolded rxGarrisonHeader_def], of 0]
         matchSeq_nthD[OF 5[unfolded rxGarrisonHeader_def], of 2]
    show ?thesis by (simp add: lit_def digits4_def)
  qed
qed

lemma turn_lead:
  assumes "IsTurnHeader l"
  shows "0 < length l \<and> l ! 0 = CHR ''c'' \<and> l ! 1 = CHR ''u''"
proof -
  from assms obtain ps where m: "matchSeq (lit ''current turn '' @ ps) l"
    by (auto simp: IsTurnHeader_def rxTurnHeader_def)
  from matchSeq_nthD[OF m, of 0] matchSeq_nthD[OF m, of 1]
  show ?thesis by (simp add: lit_def)
qed

lemma matchSeq_appendD: "matchSeq (ps @ qs) l \<Longrightarrow> matchSeq ps l"
  by (induction ps l rule: matchSeq.induct) auto

lemma fleet_lead:
  assumes "IsFleetMovement l"
  shows "0 < length l \<and> ((l ! 0 = CHR ''c'' \<and> l ! 1 = CHR ''a'') \<or> l ! 0 = CHR ''m''
         \<or> (l ! 0 = CHR ''s'' \<and> l ! 1 = CHR ''t'') \<or> (l ! 0 = CHR ''g'' \<and> l ! 2 = CHR ''l''))"
proof -
  from assms obtain w d where m: "matchSeq (lit (w @ '' '' @ d @ '' fleet movement:'')) l"
    and w: "w \<in> set [''calm'', ''mild'', ''strong'', ''gale'']"
    unfolding IsFleetMovement_def rxFleetMovement_def list_ex_iff by blast
  have "lit (w @ '' '' @ d @ '' fleet movement:'') = lit w @ lit ('' '' @ d @ '' fleet movement:'')"
    unfolding lit_def by (rule map_append)
  with m have mw: "matchSeq (lit w) l" using matchSeq_appendD by metis
  from w consider "w = ''calm''" | "w = ''mild''" | "w = ''strong''" | "w = ''gale''" by auto
  then show ?thesis
  proof cases
    case 1
    from matchSeq_nthD[OF mw, of 0] matchSeq_nthD[OF mw, of 1]
    show ?thesis by (simp add: lit_def 1)
  next
    case 2
    from matchSeq_nthD[OF mw, of 0]
    show ?thesis by (simp add: lit_def 2)
  next
    case 3
    from matchSeq_nthD[OF mw, of 0] matchSeq_nthD[OF mw, of 1]
    show ?thesis by (simp add: lit_def 3)
  next
    case 4
    from matchSeq_nthD[OF mw, of 0] matchSeq_nthD[OF mw, of 2]
    show ?thesis by (simp add: lit_def 4)
  qed
qed

lemma scout_lead:
  assumes "IsScoutLine l"
  shows "0 < length l \<and> l ! 0 = CHR ''s'' \<and> l ! 1 = CHR ''c''"
  using matchSeq_nthD[OF assms[unfolded IsScoutLine_def rxScoutLine_def], of 0]
        matchSeq_nthD[OF assms[unfolded IsScoutLine_def rxScoutLine_def], of 1]
  by (simp add: lit_def)

lemma follows_lead:
  assumes "IsTribeFollows l"
  shows "0 < length l \<and> l ! 0 = CHR ''t'' \<and> l ! 6 = CHR ''f''"
  using prefix_nthD[OF assms[unfolded IsTribeFollows_def], of 0]
        prefix_nthD[OF assms[unfolded IsTribeFollows_def], of 6]
  by simp

lemma goesto_lead:
  assumes "IsTribeGoesTo l"
  shows "0 < length l \<and> l ! 0 = CHR ''t'' \<and> l ! 6 = CHR ''g''"
  using prefix_nthD[OF assms[unfolded IsTribeGoesTo_def], of 0]
        prefix_nthD[OF assms[unfolded IsTribeGoesTo_def], of 6]
  by simp

lemma movement_lead:
  assumes "IsTribeMovement l"
  shows "0 < length l \<and> l ! 0 = CHR ''t'' \<and> l ! 6 = CHR ''m''"
  using prefix_nthD[OF assms[unfolded IsTribeMovement_def], of 0]
        prefix_nthD[OF assms[unfolded IsTribeMovement_def], of 6]
  by simp

lemma status_lead:
  assumes "IsUnitStatus l"
  shows "0 < length l \<and> isDigit (l ! 0)"
proof -
  from assms obtain ps where m: "matchSeq (digits4 @ ps) l"
    by (auto simp: IsUnitStatus_def rxTribeStatus_def rxCourierStatus_def rxElementStatus_def
        rxFleetStatus_def rxGarrisonStatus_def)
  from matchSeq_nthD[OF m, of 0] show ?thesis by (simp add: digits4_def)
qed

lemma letters_not_digits:
  "\<not> isDigit (CHR ''t'')" "\<not> isDigit (CHR ''c'')" "\<not> isDigit (CHR ''e'')"
  "\<not> isDigit (CHR ''f'')" "\<not> isDigit (CHR ''g'')" "\<not> isDigit (CHR ''m'')"
  "\<not> isDigit (CHR ''s'')"
  by (simp_all add: isDigit_def)

lemma digit_not_fgm:
  "isDigit c \<Longrightarrow> c \<noteq> CHR ''f'' \<and> c \<noteq> CHR ''g'' \<and> c \<noteq> CHR ''m''"
  using letters_not_digits by blast

lemma kind_header:
  assumes "IsUnitHeader l"
  shows "leadKind l = 1"
  using header_lead[OF assms] digit_not_fgm[of "l ! 6"]
  by (auto simp: leadKind_def letters_not_digits)

lemma kind_turn: "IsTurnHeader l \<Longrightarrow> leadKind l = 2"
  using turn_lead[of l] by (simp add: leadKind_def letters_not_digits)

lemma kind_fleet:
  assumes "IsFleetMovement l"
  shows "leadKind l = 3"
  using fleet_lead[OF assms]
  by (auto simp: leadKind_def letters_not_digits)

lemma kind_follows: "IsTribeFollows l \<Longrightarrow> leadKind l = 4"
  using follows_lead[of l] by (simp add: leadKind_def letters_not_digits)

lemma kind_goesto: "IsTribeGoesTo l \<Longrightarrow> leadKind l = 5"
  using goesto_lead[of l] by (simp add: leadKind_def letters_not_digits)

lemma kind_movement: "IsTribeMovement l \<Longrightarrow> leadKind l = 6"
  using movement_lead[of l] by (simp add: leadKind_def letters_not_digits)

lemma kind_scout: "IsScoutLine l \<Longrightarrow> leadKind l = 7"
  using scout_lead[of l] by (simp add: leadKind_def letters_not_digits)

lemma kind_status: "IsUnitStatus l \<Longrightarrow> leadKind l = 8"
  using status_lead[of l] by (simp add: leadKind_def)

text \<open>
  C9.  Each predicate is a total function of the line, and for every line at most one of
  the eight predicates of the defined kinds holds; a line for which none holds is
  unclassified.
\<close>

theorem C9_kinds_mutually_exclusive: "length (filter (\<lambda>p. p line)
     [IsUnitHeader, IsTurnHeader, IsFleetMovement, IsTribeFollows, IsTribeGoesTo,
      IsTribeMovement, IsScoutLine, IsUnitStatus]) \<le> 1"
proof -
  define k where "k = leadKind line"
  have h: "IsUnitHeader line \<longrightarrow> k = 1" "IsTurnHeader line \<longrightarrow> k = 2"
    "IsFleetMovement line \<longrightarrow> k = 3" "IsTribeFollows line \<longrightarrow> k = 4"
    "IsTribeGoesTo line \<longrightarrow> k = 5" "IsTribeMovement line \<longrightarrow> k = 6"
    "IsScoutLine line \<longrightarrow> k = 7" "IsUnitStatus line \<longrightarrow> k = 8"
    unfolding k_def
    using kind_header kind_turn kind_fleet kind_follows kind_goesto kind_movement
      kind_scout kind_status by blast+
  consider "k = 1" | "k = 2" | "k = 3" | "k = 4" | "k = 5" | "k = 6" | "k = 7" | "k = 8"
    | "k \<notin> {1, 2, 3, 4, 5, 6, 7, 8}" by blast
  then show ?thesis
  proof cases
    case 1 with h show ?thesis by simp
  next
    case 2 with h show ?thesis by simp
  next
    case 3 with h show ?thesis by simp
  next
    case 4 with h show ?thesis by simp
  next
    case 5 with h show ?thesis by simp
  next
    case 6 with h show ?thesis by simp
  next
    case 7 with h show ?thesis by simp
  next
    case 8 with h show ?thesis by simp
  next
    case 9 with h show ?thesis by auto
  qed
qed

section \<open>Properties of SectionInput\<close>

lemma not_kind_Nil:
  "\<not> IsUnitHeader []" "\<not> IsTurnHeader []" "\<not> IsFleetMovement []" "\<not> IsTribeFollows []"
  "\<not> IsTribeGoesTo []" "\<not> IsTribeMovement []" "\<not> IsScoutLine []" "\<not> IsUnitStatus []"
  using header_lead[of "[]"] turn_lead[of "[]"] fleet_lead[of "[]"] follows_lead[of "[]"]
    goesto_lead[of "[]"] movement_lead[of "[]"] scout_lead[of "[]"] status_lead[of "[]"]
  by auto

lemma sectionLine_header:
  "IsUnitHeader l \<Longrightarrow> sectionLine ss l = ss @ [newSection (int (length ss) + 1) l]"
  using not_kind_Nil(1) by (auto simp: sectionLine_def)

lemma onCurrent_snoc: "onCurrent f (ss @ [s]) = ss @ [f s]"
  by (simp add: onCurrent_def)

lemma map_onCurrent:
  assumes "ss \<noteq> []" "\<And>s. g (f s) = g s"
  shows "map g (onCurrent f ss) = map g ss"
proof -
  from assms(1) obtain ss' s where "ss = ss' @ [s]" by (metis rev_exhaust)
  then show ?thesis by (simp add: onCurrent_snoc assms(2))
qed

lemma sectionLine_other_Header:
  "\<not> IsUnitHeader l \<Longrightarrow> map Header (sectionLine ss l) = map Header ss"
  by (simp add: sectionLine_def map_onCurrent)

lemma sectionLine_other_Id:
  "\<not> IsUnitHeader l \<Longrightarrow> map Id (sectionLine ss l) = map Id ss"
  by (simp add: sectionLine_def map_onCurrent)

lemma sections_Header:
  "map Header (foldl sectionLine [] ls) = map Some (filter IsUnitHeader ls)"
proof (induction ls rule: rev_induct)
  case Nil
  show ?case by simp
next
  case (snoc l ls)
  show ?case
  proof (cases "IsUnitHeader l")
    case True
    with snoc show ?thesis by (simp add: sectionLine_header newSection_def)
  next
    case False
    with snoc show ?thesis by (simp add: sectionLine_other_Header)
  qed
qed

lemma sections_length:
  "length (foldl sectionLine [] ls) = length (filter IsUnitHeader ls)"
  using arg_cong[OF sections_Header[of ls], of length] by simp

lemma sections_Id:
  "map Id (foldl sectionLine [] ls) = map int [1..<Suc (length (foldl sectionLine [] ls))]"
proof (induction ls rule: rev_induct)
  case Nil
  show ?case by simp
next
  case (snoc l ls)
  show ?case
  proof (cases "IsUnitHeader l")
    case True
    with snoc show ?thesis by (simp add: sectionLine_header newSection_def)
  next
    case False
    have "length (sectionLine (foldl sectionLine [] ls) l) = length (foldl sectionLine [] ls)"
      using arg_cong[OF sectionLine_other_Id[OF False, of "foldl sectionLine [] ls"], of length]
      by simp
    with False snoc show ?thesis by (simp add: sectionLine_other_Id)
  qed
qed

text \<open>
  C6.  \<open>SectionInput\<close> returns one section for each line that satisfies
  \<open>IsUnitHeader\<close>, in the order of the header lines: the headers of the sections are
  the header lines, and the section at place \<open>k\<close> (counting from 1) has \<open>Id = k\<close>.
\<close>

theorem C6_sections_are_headers:
  "length (SectionInput x) = length (filter IsUnitHeader (splitLines x))
   \<and> map Header (SectionInput x) = map Some (filter IsUnitHeader (splitLines x))
   \<and> map Id (SectionInput x) = map int [1..<Suc (length (SectionInput x))]"
  unfolding SectionInput_def
  using sections_length sections_Header sections_Id by blast

lemma lastOf_snoc: "lastOf P (ls @ [l]) = (if P l then Some l else lastOf P ls)"
  by (simp add: lastOf_def)

lemma lastOf_Nil: "lastOf P [] = None"
  by (simp add: lastOf_def)

lemma sectionOf_Nil: "sectionOf n h [] = newSection n h"
  by (simp add: sectionOf_def newSection_def lastOf_Nil)

text \<open>A line that is no header changes the current section as the spec describes.\<close>

lemma kinds_exclusive:
  "IsFleetMovement l \<Longrightarrow> \<not> IsUnitHeader l \<and> \<not> IsTurnHeader l \<and> \<not> IsTribeFollows l
     \<and> \<not> IsTribeGoesTo l \<and> \<not> IsTribeMovement l \<and> \<not> IsScoutLine l \<and> \<not> IsUnitStatus l"
  "IsTribeFollows l \<Longrightarrow> \<not> IsUnitHeader l \<and> \<not> IsTurnHeader l \<and> \<not> IsFleetMovement l
     \<and> \<not> IsTribeGoesTo l \<and> \<not> IsTribeMovement l \<and> \<not> IsScoutLine l \<and> \<not> IsUnitStatus l"
  "IsTribeGoesTo l \<Longrightarrow> \<not> IsUnitHeader l \<and> \<not> IsTurnHeader l \<and> \<not> IsFleetMovement l
     \<and> \<not> IsTribeFollows l \<and> \<not> IsTribeMovement l \<and> \<not> IsScoutLine l \<and> \<not> IsUnitStatus l"
  "IsTribeMovement l \<Longrightarrow> \<not> IsUnitHeader l \<and> \<not> IsTurnHeader l \<and> \<not> IsFleetMovement l
     \<and> \<not> IsTribeFollows l \<and> \<not> IsTribeGoesTo l \<and> \<not> IsScoutLine l \<and> \<not> IsUnitStatus l"
  "IsScoutLine l \<Longrightarrow> \<not> IsUnitHeader l \<and> \<not> IsTurnHeader l \<and> \<not> IsFleetMovement l
     \<and> \<not> IsTribeFollows l \<and> \<not> IsTribeGoesTo l \<and> \<not> IsTribeMovement l \<and> \<not> IsUnitStatus l"
  "IsTurnHeader l \<Longrightarrow> \<not> IsUnitHeader l \<and> \<not> IsScoutLine l \<and> \<not> IsFleetMovement l
     \<and> \<not> IsTribeFollows l \<and> \<not> IsTribeGoesTo l \<and> \<not> IsTribeMovement l \<and> \<not> IsUnitStatus l"
  "IsUnitStatus l \<Longrightarrow> \<not> IsUnitHeader l \<and> \<not> IsScoutLine l \<and> \<not> IsFleetMovement l
     \<and> \<not> IsTribeFollows l \<and> \<not> IsTribeGoesTo l \<and> \<not> IsTribeMovement l \<and> \<not> IsTurnHeader l"
  using kind_header[of l] kind_turn[of l] kind_fleet[of l] kind_follows[of l]
    kind_goesto[of l] kind_movement[of l] kind_scout[of l] kind_status[of l]
  by auto

lemma sectionLine_body:
  assumes "\<not> IsUnitHeader l"
  shows "sectionLine (ss @ [sectionOf n h body]) l = ss @ [sectionOf n h (body @ [l])]"
proof -
  consider (empty) "l = []" | (fleet) "IsFleetMovement l" | (follows) "IsTribeFollows l"
    | (goesto) "IsTribeGoesTo l" | (movement) "IsTribeMovement l" | (scout) "IsScoutLine l"
    | (turn) "IsTurnHeader l" | (status) "IsUnitStatus l"
    | (other) "l \<noteq> []" "\<not> IsFleetMovement l" "\<not> IsTribeFollows l" "\<not> IsTribeGoesTo l"
      "\<not> IsTribeMovement l" "\<not> IsScoutLine l" "\<not> IsTurnHeader l" "\<not> IsUnitStatus l"
    by blast
  then show ?thesis
  proof cases
    case empty
    then show ?thesis
      by (simp add: sectionLine_def sectionOf_def lastOf_snoc not_kind_Nil)
  next
    case fleet
    with kinds_exclusive(1)[OF fleet] not_kind_Nil(3) show ?thesis
      by (auto simp: sectionLine_def sectionOf_def lastOf_snoc onCurrent_snoc)
  next
    case follows
    with kinds_exclusive(2)[OF follows] not_kind_Nil(4) show ?thesis
      by (auto simp: sectionLine_def sectionOf_def lastOf_snoc onCurrent_snoc)
  next
    case goesto
    with kinds_exclusive(3)[OF goesto] not_kind_Nil(5) show ?thesis
      by (auto simp: sectionLine_def sectionOf_def lastOf_snoc onCurrent_snoc)
  next
    case movement
    with kinds_exclusive(4)[OF movement] not_kind_Nil(6) show ?thesis
      by (auto simp: sectionLine_def sectionOf_def lastOf_snoc onCurrent_snoc)
  next
    case scout
    with kinds_exclusive(5)[OF scout] not_kind_Nil(7) show ?thesis
      by (auto simp: sectionLine_def sectionOf_def lastOf_snoc onCurrent_snoc)
  next
    case turn
    with kinds_exclusive(6)[OF turn] not_kind_Nil(2) show ?thesis
      by (auto simp: sectionLine_def sectionOf_def lastOf_snoc onCurrent_snoc)
  next
    case status
    with kinds_exclusive(7)[OF status] not_kind_Nil(8) show ?thesis
      by (auto simp: sectionLine_def sectionOf_def lastOf_snoc onCurrent_snoc)
  next
    case other
    with assms show ?thesis
      by (simp add: sectionLine_def sectionOf_def lastOf_snoc)
  qed
qed

lemma sections_body:
  "\<forall>l \<in> set body. \<not> IsUnitHeader l \<Longrightarrow>
   foldl sectionLine (ss @ [newSection n h]) body = ss @ [sectionOf n h body]"
proof (induction body rule: rev_induct)
  case Nil
  show ?case by (simp add: sectionOf_Nil)
next
  case (snoc l body)
  then show ?case by (simp add: sectionLine_body)
qed

text \<open>Lines before the first header leave the list of sections empty.\<close>

lemma sections_no_header:
  "\<forall>l \<in> set pre. \<not> IsUnitHeader l \<Longrightarrow> foldl sectionLine [] pre = []"
proof (induction pre rule: rev_induct)
  case Nil
  show ?case by simp
next
  case (snoc l pre)
  then show ?case by (simp add: sectionLine_def)
qed

text \<open>Sections before the current one are never changed again.\<close>

lemma sectionLine_butlast: "prefix (butlast ss) (butlast (sectionLine ss l))"
proof (cases "ss = []")
  case True
  then show ?thesis by simp
next
  case False
  then have "butlast (onCurrent f ss) = butlast ss" for f
    by (simp add: onCurrent_def butlast_append)
  then show ?thesis
    by (simp add: sectionLine_def butlast_append prefixeq_butlast)
qed

lemma sections_butlast: "prefix (butlast ss) (butlast (foldl sectionLine ss ls))"
proof (induction ls arbitrary: ss)
  case Nil
  show ?case by simp
next
  case (Cons l ls)
  have "prefix (butlast ss) (butlast (sectionLine ss l))" by (rule sectionLine_butlast)
  also have "prefix \<dots> (butlast (foldl sectionLine (sectionLine ss l) ls))" by (rule Cons.IH)
  finally show ?case by simp
qed

lemma sections_closed:
  assumes "rest = [] \<or> IsUnitHeader (hd rest)"
  shows "prefix (ss @ [s]) (foldl sectionLine (ss @ [s]) rest)"
proof (cases rest)
  case Nil
  then show ?thesis by simp
next
  case (Cons r rs)
  with assms have "IsUnitHeader r" by simp
  then have "sectionLine (ss @ [s]) r = (ss @ [s]) @ [newSection (int (length (ss @ [s])) + 1) r]"
    by (rule sectionLine_header)
  then have "prefix (ss @ [s]) (butlast (foldl sectionLine (sectionLine (ss @ [s]) r) rs))"
    using sections_butlast[of "sectionLine (ss @ [s]) r" rs] by (simp add: butlast_append)
  then have "prefix (ss @ [s]) (foldl sectionLine (sectionLine (ss @ [s]) r) rs)"
    by (meson prefix_order.trans prefixeq_butlast)
  with Cons show ?thesis by simp
qed

lemma sections_at_header:
  assumes "IsUnitHeader h" "\<forall>l \<in> set body. \<not> IsUnitHeader l" "rest = [] \<or> IsUnitHeader (hd rest)"
  shows "length (filter IsUnitHeader pre) < length (foldl sectionLine [] (pre @ h # body @ rest))
    \<and> foldl sectionLine [] (pre @ h # body @ rest) ! length (filter IsUnitHeader pre)
      = sectionOf (int (length (filter IsUnitHeader pre)) + 1) h body"
proof -
  define ss where "ss = foldl sectionLine [] pre"
  define n where "n = int (length (filter IsUnitHeader pre)) + 1"
  have len: "length ss = length (filter IsUnitHeader pre)"
    unfolding ss_def by (rule sections_length)
  have "foldl sectionLine [] (pre @ h # body) = ss @ [sectionOf n h body]"
    using sectionLine_header[OF assms(1), of ss] sections_body[OF assms(2), of ss n h] len
    by (simp add: ss_def n_def)
  then have "prefix (ss @ [sectionOf n h body]) (foldl sectionLine [] (pre @ h # body @ rest))"
    using sections_closed[OF assms(3), of ss "sectionOf n h body"] 
    by (metis append.assoc append_Cons foldl_append)
  then obtain more where "foldl sectionLine [] (pre @ h # body @ rest) = (ss @ [sectionOf n h body]) @ more"
    by (auto simp: prefix_def)
  then show ?thesis using len by (simp add: n_def nth_append)
qed

lemma splitLines_Nil: "splitLines [] = [[]]"
  by (subst splitLines.simps) simp

lemma splitLines_Cons:
  "splitLines (c # cs) =
     (if c = LF then [] # splitLines cs
      else (case splitLines cs of [] \<Rightarrow> [[c]] | l # ls \<Rightarrow> (c # l) # ls))"
proof (cases "c = LF")
  case True
  then show ?thesis by (subst splitLines.simps) simp
next
  case False
  have l: "splitLines (c # cs) = (c # takeWhile (\<lambda>c. c \<noteq> LF) cs)
      # (case dropWhile (\<lambda>c. c \<noteq> LF) cs of [] \<Rightarrow> [] | lf # rest \<Rightarrow> splitLines rest)"
    using False by (subst splitLines.simps) simp
  have r: "splitLines cs = takeWhile (\<lambda>c. c \<noteq> LF) cs
      # (case dropWhile (\<lambda>c. c \<noteq> LF) cs of [] \<Rightarrow> [] | lf # rest \<Rightarrow> splitLines rest)"
    by (subst splitLines.simps) simp
  show ?thesis using False unfolding l by (subst (2) r) simp
qed

lemma split3: "splitLines scenario3 = [''tribe 0987,a'', ''0987 status:x'', ''garrison 0987g1,b'',
     ''0987g1 status:y'', ''fleet 0987f1,c'', ''0987f1 status:z'']"
  unfolding scenario3_def
  by (simp add: splitLines_Cons splitLines_Nil)

lemma hdr3: "IsUnitHeader ''tribe 0987,a''" "IsUnitHeader ''garrison 0987g1,b''" "IsUnitHeader ''fleet 0987f1,c''"
  by (simp_all add: IsUnitHeader_def rxTribeHeader_def rxGarrisonHeader_def rxFleetHeader_def lit_def digits4_def isDigit_def)

lemma st3: "IsUnitStatus ''0987 status:x''" "IsUnitStatus ''0987g1 status:y''" "IsUnitStatus ''0987f1 status:z''"
  by (simp_all add: IsUnitStatus_def rxTribeStatus_def rxGarrisonStatus_def rxFleetStatus_def lit_def digits4_def isDigit_def)

lemma sections_Cons_header:
  "IsUnitHeader h \<Longrightarrow> \<forall>l \<in> set body. \<not> IsUnitHeader l \<Longrightarrow>
   foldl sectionLine ss (h # body @ rest)
   = foldl sectionLine (ss @ [sectionOf (int (length ss) + 1) h body]) rest"
  using sectionLine_header[of h ss] sections_body[of body ss "int (length ss) + 1" h]
  by simp

lemma sectionOf_status_only:
  assumes "IsUnitStatus st"
  shows "sectionOf n h [st] = (newSection n h)\<lparr>Status := Some st\<rparr>"
  using assms kinds_exclusive(7)[OF assms]
  by (simp add: sectionOf_def newSection_def lastOf_def)

lemma SectionInput_scenario3: "SectionInput scenario3 =
   [(newSection 1 ''tribe 0987,a'')\<lparr>Status := Some ''0987 status:x''\<rparr>,
    (newSection 2 ''garrison 0987g1,b'')\<lparr>Status := Some ''0987g1 status:y''\<rparr>,
    (newSection 3 ''fleet 0987f1,c'')\<lparr>Status := Some ''0987f1 status:z''\<rparr>]"
proof -
  have nh: "\<not> IsUnitHeader ''0987 status:x''" "\<not> IsUnitHeader ''0987g1 status:y''"
    "\<not> IsUnitHeader ''0987f1 status:z''"
    using st3 kinds_exclusive(7) by blast+
  have step: "foldl sectionLine ss (h # st # rest)
      = foldl sectionLine (ss @ [(newSection (int (length ss) + 1) h)\<lparr>Status := Some st\<rparr>]) rest"
    if "IsUnitHeader h" "IsUnitStatus st" for ss h st rest
    using sections_Cons_header[of h "[st]" ss rest] that kinds_exclusive(7)[OF that(2)]
      sectionOf_status_only[OF that(2)]
    by (simp del: foldl.simps)
  have "foldl sectionLine [] (splitLines scenario3)
      = foldl sectionLine [(newSection 1 ''tribe 0987,a'')\<lparr>Status := Some ''0987 status:x''\<rparr>]
          [''garrison 0987g1,b'', ''0987g1 status:y'', ''fleet 0987f1,c'', ''0987f1 status:z'']"
    unfolding split3 using step[OF hdr3(1) st3(1), of "[]"] by (simp del: foldl.simps)
  also have "\<dots> = foldl sectionLine [(newSection 1 ''tribe 0987,a'')\<lparr>Status := Some ''0987 status:x''\<rparr>,
      (newSection 2 ''garrison 0987g1,b'')\<lparr>Status := Some ''0987g1 status:y''\<rparr>]
          [''fleet 0987f1,c'', ''0987f1 status:z'']"
    by (subst step[OF hdr3(2) st3(2)]) (simp del: foldl.simps)
  also have "\<dots> = foldl sectionLine [(newSection 1 ''tribe 0987,a'')\<lparr>Status := Some ''0987 status:x''\<rparr>,
      (newSection 2 ''garrison 0987g1,b'')\<lparr>Status := Some ''0987g1 status:y''\<rparr>,
      (newSection 3 ''fleet 0987f1,c'')\<lparr>Status := Some ''0987f1 status:z''\<rparr>] []"
    by (subst step[OF hdr3(3) st3(3)]) (simp del: foldl.simps)
  finally show ?thesis by (simp add: SectionInput_def)
qed

lemma sections_drop_before_first_header:
  assumes "\<forall>l \<in> set pre. \<not> IsUnitHeader l"
  shows "foldl sectionLine [] (pre @ ls) = foldl sectionLine [] ls"
  using sections_no_header[OF assms] by simp

text \<open>
  C7.  Let the lines of the input be \<open>pre\<close>, a header line \<open>h\<close>, the lines
  \<open>body\<close> up to the next header, and the rest.  The section of \<open>h\<close> holds, in each
  scalar field, the last line of that kind in \<open>body\<close> (nil if there is none), and in
  \<open>Scouts\<close> all scout lines of \<open>body\<close> in order.  Lines before the first header
  have no effect on the result.  In scenario 3 (three headers, each followed by its
  status line) there are three sections in order, each with its own status line only.
\<close>

theorem C7_section_fields:
  "(splitLines x = pre @ h # body @ rest \<and> IsUnitHeader h
      \<and> (\<forall>l \<in> set body. \<not> IsUnitHeader l) \<and> (rest = [] \<or> IsUnitHeader (hd rest))
    \<longrightarrow> length (filter IsUnitHeader pre) < length (SectionInput x)
      \<and> SectionInput x ! length (filter IsUnitHeader pre)
          = sectionOf (int (length (filter IsUnitHeader pre)) + 1) h body)
   \<and> (splitLines y = pre' @ ls \<and> (\<forall>l \<in> set pre'. \<not> IsUnitHeader l)
    \<longrightarrow> SectionInput y = foldl sectionLine [] ls)
   \<and> SectionInput scenario3 =
     [(newSection 1 ''tribe 0987,a'')\<lparr>Status := Some ''0987 status:x''\<rparr>,
      (newSection 2 ''garrison 0987g1,b'')\<lparr>Status := Some ''0987g1 status:y''\<rparr>,
      (newSection 3 ''fleet 0987f1,c'')\<lparr>Status := Some ''0987f1 status:z''\<rparr>]"
proof (intro conjI impI)
  assume a: "splitLines x = pre @ h # body @ rest \<and> IsUnitHeader h
      \<and> (\<forall>l \<in> set body. \<not> IsUnitHeader l) \<and> (rest = [] \<or> IsUnitHeader (hd rest))"
  then have s: "splitLines x = pre @ h # body @ rest" and h: "IsUnitHeader h"
    and b: "\<forall>l \<in> set body. \<not> IsUnitHeader l" and r: "rest = [] \<or> IsUnitHeader (hd rest)"
    by blast+
  from sections_at_header[OF h b r, of pre]
  show "length (filter IsUnitHeader pre) < length (SectionInput x)"
    and "SectionInput x ! length (filter IsUnitHeader pre)
          = sectionOf (int (length (filter IsUnitHeader pre)) + 1) h body"
    by (simp_all add: SectionInput_def s)
next
  assume "splitLines y = pre' @ ls \<and> (\<forall>l \<in> set pre'. \<not> IsUnitHeader l)"
  then show "SectionInput y = foldl sectionLine [] ls"
    using sections_drop_before_first_header[of pre' ls] by (simp add: SectionInput_def)
next
  show "SectionInput scenario3 =
     [(newSection 1 ''tribe 0987,a'')\<lparr>Status := Some ''0987 status:x''\<rparr>,
      (newSection 2 ''garrison 0987g1,b'')\<lparr>Status := Some ''0987g1 status:y''\<rparr>,
      (newSection 3 ''fleet 0987f1,c'')\<lparr>Status := Some ''0987f1 status:z''\<rparr>]"
    by (rule SectionInput_scenario3)
qed

theorem C7_section_fields_witness:
  "splitLines scenario3 = [''tribe 0987,a'', ''0987 status:x''] @ ''garrison 0987g1,b''
      # [''0987g1 status:y''] @ [''fleet 0987f1,c'', ''0987f1 status:z'']
   \<and> IsUnitHeader ''garrison 0987g1,b''
   \<and> SectionInput scenario3 ! 1 = sectionOf 2 ''garrison 0987g1,b'' [''0987g1 status:y'']
   \<and> splitLines ''0987 status:x'' = [''0987 status:x''] @ []
   \<and> SectionInput ''0987 status:x'' = []"
proof -
  have nh: "\<not> IsUnitHeader ''0987 status:x''" "\<not> IsUnitHeader ''0987g1 status:y''"
    using st3 kinds_exclusive(7) by blast+
  have s: "splitLines scenario3 = [''tribe 0987,a'', ''0987 status:x''] @ ''garrison 0987g1,b''
      # [''0987g1 status:y''] @ [''fleet 0987f1,c'', ''0987f1 status:z'']"
    by (simp add: split3)
  have f: "length (filter IsUnitHeader [''tribe 0987,a'', ''0987 status:x'']) = 1"
    using hdr3(1) nh(1) by simp
  have s2: "splitLines ''0987 status:x'' = [''0987 status:x''] @ []"
    by (simp add: splitLines_Cons splitLines_Nil)
  note t = C7_section_fields[of scenario3 "[''tribe 0987,a'', ''0987 status:x'']"
      "''garrison 0987g1,b''" "[''0987g1 status:y'']" "[''fleet 0987f1,c'', ''0987f1 status:z'']"
      "''0987 status:x''" "[''0987 status:x'']" "[]"]
  have p1: "splitLines scenario3 = [''tribe 0987,a'', ''0987 status:x''] @ ''garrison 0987g1,b''
      # [''0987g1 status:y''] @ [''fleet 0987f1,c'', ''0987f1 status:z'']
    \<and> IsUnitHeader ''garrison 0987g1,b''
    \<and> (\<forall>l \<in> set [''0987g1 status:y'']. \<not> IsUnitHeader l)
    \<and> ([''fleet 0987f1,c'', ''0987f1 status:z''] = []
        \<or> IsUnitHeader (hd [''fleet 0987f1,c'', ''0987f1 status:z'']))"
    using s hdr3 nh by simp
  have p2: "splitLines ''0987 status:x'' = [''0987 status:x''] @ []
    \<and> (\<forall>l \<in> set [''0987 status:x'']. \<not> IsUnitHeader l)"
    using s2 nh by simp
  from mp[OF conjunct1[OF t] p1] f
  have c1: "SectionInput scenario3 ! 1 = sectionOf 2 ''garrison 0987g1,b'' [''0987g1 status:y'']"
    by simp
  from mp[OF conjunct1[OF conjunct2[OF t]] p2]
  have c2: "SectionInput ''0987 status:x'' = []" by simp
  from s hdr3(2) c1 s2 c2 show ?thesis by blast
qed

section \<open>Properties of scrubStepResults\<close>

lemma rel_refl: "rel xs xs"
  by (simp add: list_all2_refl sepRel_def)

lemma sepRel_fixedByte: "sepRel x y \<Longrightarrow> fixedByte x \<or> fixedByte y \<Longrightarrow> y = x"
  by (auto simp: sepRel_def fixedByte_def isSpaceChar_def)

lemma fixedByte_classes:
  "isDigit c \<Longrightarrow> fixedByte c" "isUnitLetter c \<Longrightarrow> fixedByte c" "isWordChar c \<Longrightarrow> fixedByte c"
  "c \<in> set ''ns'' \<Longrightarrow> fixedByte c" "c \<in> set ''ew'' \<Longrightarrow> fixedByte c"
  by (auto simp: fixedByte_def isDigit_def isUnitLetter_def isWordChar_def isSpaceChar_def)

lemma sepRel_class:
  assumes "sepRel x y" "\<And>c. p c \<Longrightarrow> fixedByte c"
  shows "p y = p x"
  using assms sepRel_fixedByte by metis

lemma sepRel_sep: "sepRel x y \<Longrightarrow> (y = COMMA \<or> isSpaceChar y) = (x = COMMA \<or> isSpaceChar x)"
  by (auto simp: sepRel_def isSpaceChar_def)

lemma rel_wordEnd: "rel a b \<Longrightarrow> wordEnd b = wordEnd a"
  by (cases a; cases b) (auto simp: wordEnd_def dest: sepRel_class[OF _ fixedByte_classes(3)])

lemma rel_matchSeq:
  assumes "rel a b" "\<And>p c. p \<in> set ps \<Longrightarrow> p c \<Longrightarrow> fixedByte c"
  shows "matchSeq ps b = matchSeq ps a"
  using assms
proof (induction ps a arbitrary: b rule: matchSeq.induct)
  case (1 s)
  show ?case by simp
next
  case (2 p ps)
  then show ?case by simp
next
  case (3 p ps c cs)
  from "3.prems"(1) obtain c' cs' where b: "b = c' # cs'" and c: "sepRel c c'" and cs: "rel cs cs'"
    by (cases b) auto
  have "p c' = p c" using sepRel_class[OF c] "3.prems"(2)[of p] by simp
  moreover have "matchSeq ps cs' = matchSeq ps cs"
  proof (rule "3.IH"[OF cs])
    fix q x assume "q \<in> set ps" "q x"
    then show "fixedByte x" using "3.prems"(2)[of q x] by simp
  qed
  ultimately show ?case by (simp add: b)
qed

lemma rel_prefix:
  assumes "rel a b" "\<And>c. c \<in> set w \<Longrightarrow> fixedByte c"
  shows "prefix w b = prefix w a"
  using assms
proof (induction w arbitrary: a b)
  case Nil
  show ?case by simp
next
  case (Cons x w)
  show ?case
  proof (cases a)
    case Nil
    with Cons.prems show ?thesis by simp
  next
    case (Cons c cs)
    with Cons.prems(1) obtain c' cs' where b: "b = c' # cs'" and c: "sepRel c c'" and cs: "rel cs cs'"
      by (cases b) auto
    have x: "fixedByte x" using Cons.prems(2) by simp
    have "(c' = x) = (c = x)" using sepRel_fixedByte[OF c] x by auto
    moreover have "prefix w cs' = prefix w cs" using Cons.IH[OF cs] Cons.prems(2) by simp
    ultimately show ?thesis using Cons b by auto
  qed
qed

lemma rel_drop: "rel a b \<Longrightarrow> rel (drop k a) (drop k b)"
  by (rule list_all2_dropI)

lemma rel_unitIDWord:
  assumes "rel a b"
  shows "unitIDWord b = unitIDWord a"
proof -
  have d4: "matchSeq digits4 b = matchSeq digits4 a"
    using rel_matchSeq[OF assms, of digits4] fixedByte_classes(1) by (auto simp: digits4_def)
  have l2: "matchSeq [isUnitLetter, isDigit] (drop 4 b) = matchSeq [isUnitLetter, isDigit] (drop 4 a)"
    using rel_matchSeq[OF rel_drop[OF assms, of 4], of "[isUnitLetter, isDigit]"] fixedByte_classes(1,2)
    by auto
  show ?thesis
    unfolding unitIDWord_def d4 l2
      rel_wordEnd[OF rel_drop[OF assms, of 6]] rel_wordEnd[OF rel_drop[OF assms, of 4]] ..
qed

lemma rel_edgeCodePattern:
  assumes "rel a b" "a \<noteq> [] \<longrightarrow> hd b = hd a"
  shows "edgeCodePattern b = edgeCodePattern a"
proof (cases a)
  case Nil
  with assms show ?thesis by simp
next
  case (Cons c cs)
  with assms obtain cs' where b: "b = c # cs'" and cs: "rel cs cs'"
    by (cases b) auto
  have "find (\<lambda>code. prefix code cs' \<and> wordEnd (drop (length code) cs')) edgeCodes
      = find (\<lambda>code. prefix code cs \<and> wordEnd (drop (length code) cs)) edgeCodes"
  proof (rule find_cong[OF refl])
    fix code assume "code \<in> set edgeCodes"
    then have "\<And>c. c \<in> set code \<Longrightarrow> fixedByte c"
      by (auto simp: edgeCodes_def fixedByte_def isSpaceChar_def)
    from rel_prefix[OF cs this] rel_wordEnd[OF rel_drop[OF cs]]
    show "(prefix code cs' \<and> wordEnd (drop (length code) cs'))
        = (prefix code cs \<and> wordEnd (drop (length code) cs))" by simp
  qed
  then show ?thesis by (simp add: edgeCodePattern_def Cons b)
qed

lemma rel_unitIDPattern:
  assumes "rel a b" "a \<noteq> [] \<longrightarrow> hd b = hd a"
  shows "unitIDPattern b = unitIDPattern a"
proof (cases a)
  case Nil
  with assms show ?thesis by simp
next
  case (Cons c cs)
  with assms obtain cs' where b: "b = c # cs'" and cs: "rel cs cs'"
    by (cases b) auto
  show ?thesis by (simp add: unitIDPattern_def Cons b rel_unitIDWord[OF cs])
qed

lemma rel_listUnitIDPattern:
  assumes "rel a b"
  shows "listUnitIDPattern b = listUnitIDPattern a"
proof (cases a)
  case Nil
  with assms show ?thesis by simp
next
  case (Cons c cs)
  with assms obtain c' cs' where b: "b = c' # cs'" and c: "sepRel c c'" and cs: "rel cs cs'"
    by (cases b) auto
  show ?thesis
    by (simp add: listUnitIDPattern_def Cons b rel_unitIDWord[OF cs] sepRel_sep[OF c])
qed

lemma rel_listDirectionPattern:
  assumes "rel a b"
  shows "listDirectionPattern b = listDirectionPattern a"
proof (cases a)
  case Nil
  with assms show ?thesis by simp
next
  case a: (Cons c cs)
  with assms obtain c' cs' where b: "b = c' # cs'" and c: "sepRel c c'" and cs: "rel cs cs'"
    by (cases b) auto
  show ?thesis
  proof (cases cs)
    case Nil
    with cs a b show ?thesis by (simp add: listDirectionPattern_def)
  next
    case (Cons d rest)
    with cs obtain d' rest' where cs': "cs' = d' # rest'" and d: "sepRel d d'" and r: "rel rest rest'"
      by (cases cs') auto
    have dd: "(d' \<in> set ''ns'') = (d \<in> set ''ns'')"
      using sepRel_class[OF d, of "\<lambda>c. c \<in> set ''ns''"] fixedByte_classes(4) by blast
    have e: "(rest' \<noteq> [] \<and> hd rest' \<in> set ''ew'' \<and> wordEnd (tl rest'))
        = (rest \<noteq> [] \<and> hd rest \<in> set ''ew'' \<and> wordEnd (tl rest))"
    proof (cases rest)
      case Nil
      with r show ?thesis by simp
    next
      case (Cons x xs)
      with r obtain x' xs' where r': "rest' = x' # xs'" and x: "sepRel x x'" and xs: "rel xs xs'"
        by (cases rest') auto
      have "(x' \<in> set ''ew'') = (x \<in> set ''ew'')"
        using sepRel_class[OF x, of "\<lambda>c. c \<in> set ''ew''"] fixedByte_classes(5) by blast
      with rel_wordEnd[OF xs] Cons r' show ?thesis by simp
    qed
    show ?thesis
      unfolding listDirectionPattern_def a b Cons cs' list.case dd sepRel_sep[OF c] e
        rel_wordEnd[OF r] ..
  qed
qed

lemma matchSeq_Cons_iff:
  "matchSeq (p # ps) s \<longleftrightarrow> (\<exists>c cs. s = c # cs \<and> p c \<and> matchSeq ps cs)"
  by (cases s) auto

lemma unitIDWord_SomeD:
  assumes "unitIDWord s = Some k"
  shows "1 \<le> k \<and> k \<le> length s \<and> COMMA \<notin> set (take k s)"
proof -
  from assms have m: "matchSeq digits4 s" by (auto simp: unitIDWord_def split: if_splits)
  then obtain a b c d r where s: "s = a # b # c # d # r"
    and dg: "isDigit a" "isDigit b" "isDigit c" "isDigit d"
    unfolding digits4_def matchSeq_Cons_iff by auto
  have nc: "x \<noteq> COMMA" if "isDigit x \<or> isUnitLetter x" for x
    using that by (auto simp: isDigit_def isUnitLetter_def)
  from assms consider (six) "k = 6" "matchSeq [isUnitLetter, isDigit] (drop 4 s)" | (four) "k = 4"
    by (auto simp: unitIDWord_def split: if_splits)
  then show ?thesis
  proof cases
    case six
    then obtain e f r' where r: "r = e # f # r'" and ef: "isUnitLetter e" "isDigit f"
      unfolding s matchSeq_Cons_iff by auto
    with dg nc[of a] nc[of b] nc[of c] nc[of d] nc[of e] nc[of f] six(1) show ?thesis
      by (auto simp: s)
  next
    case four
    with dg nc[of a] nc[of b] nc[of c] nc[of d] show ?thesis by (auto simp: s)
  qed
qed

lemma edgeCodePattern_SomeD:
  assumes "edgeCodePattern s = Some n"
  shows "s \<noteq> [] \<and> hd s = COMMA \<and> 1 \<le> n \<and> n \<le> length s \<and> COMMA \<notin> set (take (n - 1) (tl s))"
proof -
  from assms obtain rest code where s: "s = COMMA # rest"
    and f: "find (\<lambda>code. prefix code rest \<and> wordEnd (drop (length code) rest)) edgeCodes = Some code"
    and n: "n = 1 + length code"
    by (auto simp: edgeCodePattern_def split: list.splits if_splits)
  from f have c: "code \<in> set edgeCodes" and p: "prefix code rest"
    unfolding find_Some_iff by (metis nth_mem, blast)
  from c have nc: "COMMA \<notin> set code"
    by (auto simp: edgeCodes_def)
  from p have t: "take (length code) rest = code" by (auto simp: prefix_def)
  from p have "length code \<le> length rest" by (rule prefix_length_le)
  with s n nc t show ?thesis by simp
qed

lemma unitIDPattern_SomeD:
  assumes "unitIDPattern s = Some n"
  shows "s \<noteq> [] \<and> hd s = COMMA \<and> 1 \<le> n \<and> n \<le> length s \<and> COMMA \<notin> set (take (n - 1) (tl s))"
proof -
  from assms obtain rest k where s: "s = COMMA # rest" and k: "unitIDWord rest = Some k" and n: "n = Suc k"
    by (auto simp: unitIDPattern_def split: list.splits if_splits)
  from unitIDWord_SomeD[OF k] s n show ?thesis by simp
qed

lemma listUnitIDPattern_SomeD:
  assumes "listUnitIDPattern s = Some n"
  shows "s \<noteq> [] \<and> (hd s = COMMA \<or> isSpaceChar (hd s)) \<and> 1 \<le> n \<and> n \<le> length s
         \<and> COMMA \<notin> set (take (n - 1) (tl s))"
proof -
  from assms obtain c rest k where s: "s = c # rest" and c: "c = COMMA \<or> isSpaceChar c"
    and k: "unitIDWord rest = Some k" and n: "n = Suc k"
    by (auto simp: listUnitIDPattern_def split: list.splits if_splits)
  from unitIDWord_SomeD[OF k] s n c show ?thesis by simp
qed

lemma listDirectionPattern_SomeD:
  assumes "listDirectionPattern s = Some n"
  shows "s \<noteq> [] \<and> (hd s = COMMA \<or> isSpaceChar (hd s)) \<and> 1 \<le> n \<and> n \<le> length s
         \<and> COMMA \<notin> set (take (n - 1) (tl s))"
proof -
  from assms obtain c d rest where s: "s = c # d # rest" and c: "c = COMMA \<or> isSpaceChar c"
    and d: "d \<in> set ''ns''"
    by (auto simp: listDirectionPattern_def split: list.splits if_splits)
  from assms s consider (three) "n = 3" "rest \<noteq> []" "hd rest \<in> set ''ew''" | (two) "n = 2"
    by (auto simp: listDirectionPattern_def split: if_splits)
  then show ?thesis
  proof cases
    case three
    then obtain e r where "rest = e # r" "e \<in> set ''ew''" by (cases rest) auto
    with three(1) s c d show ?thesis by auto
  next
    case two
    with s c d show ?thesis by auto
  qed
qed


lemma scan_Results_Nil: "scan Results [] = []"
  by (simp add: scan.simps)

lemma scan_Results_edge:
  "edgeCodePattern step = Some n \<Longrightarrow>
   scan Results step = take n step @ scan Directions (drop n step)"
  using edgeCodePattern_SomeD[of step n] by (simp add: scan.simps(1))

lemma scan_Results_unit:
  "edgeCodePattern step = None \<Longrightarrow> unitIDPattern step = Some n \<Longrightarrow>
   scan Results step = take n step @ scan UnitIDs (drop n step)"
  using unitIDPattern_SomeD[of step n] by (simp add: scan.simps(1))

lemma scan_Results_skip:
  "step \<noteq> [] \<Longrightarrow> edgeCodePattern step = None \<Longrightarrow> unitIDPattern step = None \<Longrightarrow>
   scan Results step = hd step # takeWhile (\<lambda>c. c \<noteq> COMMA) (tl step)
     @ scan Results (dropWhile (\<lambda>c. c \<noteq> COMMA) (tl step))"
  by (simp add: scan.simps(1))

lemma scan_Directions_elem:
  "listDirectionPattern step = Some n \<Longrightarrow>
   scan Directions step = SP # take (n - 1) (tl step) @ scan Directions (drop n step)"
  by (simp add: scan.simps(2))

lemma scan_Directions_end:
  "listDirectionPattern step = None \<Longrightarrow> scan Directions step = scan Results step"
  by (simp add: scan.simps(2))

lemma scan_UnitIDs_elem:
  "listUnitIDPattern step = Some n \<Longrightarrow>
   scan UnitIDs step = SP # take (n - 1) (tl step) @ scan UnitIDs (drop n step)"
  by (simp add: scan.simps(3))

lemma scan_UnitIDs_end:
  "listUnitIDPattern step = None \<Longrightarrow> scan UnitIDs step = scan Results step"
  by (simp add: scan.simps(3))

text \<open>
  The bytes written for the remaining input, against that input: each byte is unchanged,
  or was a separator and is now a space.
\<close>

lemma rel_element:
  assumes "step \<noteq> []" "hd step = COMMA \<or> isSpaceChar (hd step)" "1 \<le> n"
    "rel (drop n step) out"
  shows "rel step (SP # take (n - 1) (tl step) @ out)"
proof -
  from assms(1) obtain c rest where s: "step = c # rest" by (cases step) auto
  with assms(3) have d: "drop n step = drop (n - 1) rest" by (simp add: drop_Cons')
  have "sepRel c SP" using assms(2) s by (simp add: sepRel_def)
  moreover have "rel (take (n - 1) rest @ drop (n - 1) rest) (take (n - 1) rest @ out)"
    using assms(4) d by (intro list_all2_appendI rel_refl) simp
  ultimately show ?thesis using s by simp
qed

lemma scan_rel: "rel step (scan m step)"
proof (induction m step rule: scan.induct)
  case (1 step)
  show ?case
  proof (cases "step = []")
    case True
    then show ?thesis by (simp add: scan_Results_Nil)
  next
    case ne: False
    show ?thesis
    proof (cases "edgeCodePattern step")
      case (Some n)
      have "rel (drop n step) (scan Directions (drop n step))"
        using "1.IH" Some ne by simp
      then have "rel (take n step @ drop n step) (take n step @ scan Directions (drop n step))"
        by (intro list_all2_appendI rel_refl)
      then show ?thesis by (simp add: scan_Results_edge[OF Some])
    next
      case None
      show ?thesis
      proof (cases "unitIDPattern step")
        case (Some n)
        have "rel (drop n step) (scan UnitIDs (drop n step))"
          using "1.IH" None Some ne by simp
        then have "rel (take n step @ drop n step) (take n step @ scan UnitIDs (drop n step))"
          by (intro list_all2_appendI rel_refl)
        then show ?thesis by (simp add: scan_Results_unit[OF None Some])
      next
        case un: None
        let ?t = "takeWhile (\<lambda>c. c \<noteq> COMMA) (tl step)"
        let ?d = "dropWhile (\<lambda>c. c \<noteq> COMMA) (tl step)"
        have "rel ?d (scan Results ?d)"
          using "1.IH" None un ne by simp
        then have "rel ((hd step # ?t) @ ?d) ((hd step # ?t) @ scan Results ?d)"
          by (intro list_all2_appendI rel_refl)
        moreover have "(hd step # ?t) @ ?d = step" using ne by simp
        ultimately have "rel step ((hd step # ?t) @ scan Results ?d)" by metis
        then show ?thesis by (simp add: scan_Results_skip[OF ne None un])
      qed
    qed
  qed
next
  case (2 step)
  show ?case
  proof (cases "listDirectionPattern step")
    case None
    with 2 show ?thesis by (simp add: scan_Directions_end)
  next
    case (Some n)
    have "rel (drop n step) (scan Directions (drop n step))" using "2.IH" Some by simp
    with listDirectionPattern_SomeD[OF Some] show ?thesis
      unfolding scan_Directions_elem[OF Some] by (intro rel_element) simp_all
  qed
next
  case (3 step)
  show ?case
  proof (cases "listUnitIDPattern step")
    case None
    with 3 show ?thesis by (simp add: scan_UnitIDs_end)
  next
    case (Some n)
    have "rel (drop n step) (scan UnitIDs (drop n step))" using "3.IH" Some by simp
    with listUnitIDPattern_SomeD[OF Some] show ?thesis
      unfolding scan_UnitIDs_elem[OF Some] by (intro rel_element) simp_all
  qed
qed

lemma scrubStepResults_rel: "rel line (scrubStepResults line)"
proof -
  have "rel (takeWhile (\<lambda>c. c \<noteq> COMMA) line @ dropWhile (\<lambda>c. c \<noteq> COMMA) line)
            (scrubStepResults line)"
    unfolding scrubStepResults_def by (intro list_all2_appendI rel_refl scan_rel)
  then show ?thesis by simp
qed

lemma drop_prefix_len: "length xs = n \<Longrightarrow> drop n (xs @ ys) = ys"
  by simp

lemma take_first: "1 \<le> n \<Longrightarrow> take n (c # rest) = c # take (n - 1) rest"
  by (cases n) simp_all

lemma takeWhile_no_comma: "COMMA \<notin> set (takeWhile (\<lambda>c. c \<noteq> COMMA) xs)"
  by (induction xs) auto

text \<open>Where no result starts, the invariant asks for nothing.\<close>

lemma resultFreeOfCommas_no_comma: "c \<noteq> COMMA \<Longrightarrow> resultFreeOfCommas (c # cs)"
  by (simp add: resultFreeOfCommas_def edgeCodePattern_def unitIDPattern_def)

lemma commaInvariant_skip:
  "COMMA \<notin> set w \<Longrightarrow> commaInvariant (w @ out) = commaInvariant out"
  by (induction w) (auto simp: resultFreeOfCommas_no_comma)

text \<open>The list that the inner loop has rewritten is free of commas.\<close>

lemma listFreeOfCommas_scan: "listFreeOfCommas m (scan m step)"
proof (induction m step rule: scan.induct)
  case (1 step)
  show ?case by (simp add: listFreeOfCommas.simps)
next
  case (2 step)
  show ?case
  proof (cases "listDirectionPattern step")
    case None
    have "listDirectionPattern (scan Directions step) = None"
      using rel_listDirectionPattern[OF scan_rel[of step Directions]] None by simp
    then show ?thesis by (simp add: listFreeOfCommas.simps)
  next
    case (Some n)
    let ?out = "scan Directions step"
    have p: "listDirectionPattern ?out = Some n"
      using rel_listDirectionPattern[OF scan_rel[of step Directions]] Some by simp
    from listDirectionPattern_SomeD[OF Some] have n: "1 \<le> n" "n \<le> length step" by auto
    then have len: "length (SP # take (n - 1) (tl step)) = n" by simp
    have d: "drop n ?out = scan Directions (drop n step)"
      unfolding scan_Directions_elem[OF Some] using drop_prefix_len[OF len] by simp
    have h: "hd ?out \<noteq> COMMA" by (simp add: scan_Directions_elem[OF Some])
    have "listFreeOfCommas Directions (scan Directions (drop n step))"
      using "2.IH" Some by simp
    with p d h show ?thesis by (subst listFreeOfCommas.simps) simp
  qed
next
  case (3 step)
  show ?case
  proof (cases "listUnitIDPattern step")
    case None
    have "listUnitIDPattern (scan UnitIDs step) = None"
      using rel_listUnitIDPattern[OF scan_rel[of step UnitIDs]] None by simp
    then show ?thesis by (simp add: listFreeOfCommas.simps)
  next
    case (Some n)
    let ?out = "scan UnitIDs step"
    have p: "listUnitIDPattern ?out = Some n"
      using rel_listUnitIDPattern[OF scan_rel[of step UnitIDs]] Some by simp
    from listUnitIDPattern_SomeD[OF Some] have n: "1 \<le> n" "n \<le> length step" by auto
    then have len: "length (SP # take (n - 1) (tl step)) = n" by simp
    have d: "drop n ?out = scan UnitIDs (drop n step)"
      unfolding scan_UnitIDs_elem[OF Some] using drop_prefix_len[OF len] by simp
    have h: "hd ?out \<noteq> COMMA" by (simp add: scan_UnitIDs_elem[OF Some])
    have "listFreeOfCommas UnitIDs (scan UnitIDs (drop n step))"
      using "3.IH" Some by simp
    with p d h show ?thesis by (subst listFreeOfCommas.simps) simp
  qed
qed

text \<open>The first byte of the outer loop's input is written unchanged.\<close>

lemma scan_Results_hd: "step \<noteq> [] \<Longrightarrow> hd (scan Results step) = hd step"
proof (cases "edgeCodePattern step")
  case (Some n)
  assume "step \<noteq> []"
  with edgeCodePattern_SomeD[OF Some] show ?thesis
    by (cases n) (simp_all add: scan_Results_edge[OF Some] hd_append take_Suc)
next
  case None
  assume ne: "step \<noteq> []"
  show ?thesis
  proof (cases "unitIDPattern step")
    case (Some n)
    with unitIDPattern_SomeD[OF Some] ne show ?thesis
      by (cases n) (simp_all add: scan_Results_unit[OF None Some] hd_append take_Suc)
  next
    case un: None
    show ?thesis by (simp add: scan_Results_skip[OF ne None un])
  qed
qed

lemma commaInvariant_scan: "commaInvariant (scan m step)"
proof (induction m step rule: scan.induct)
  case (1 step)
  show ?case
  proof (cases "step = []")
    case True
    then show ?thesis by (simp add: scan_Results_Nil)
  next
    case ne: False
    let ?out = "scan Results step"
    have r: "rel step ?out" by (rule scan_rel)
    have hd: "step \<noteq> [] \<longrightarrow> hd ?out = hd step" using scan_Results_hd by simp
    have e: "edgeCodePattern ?out = edgeCodePattern step" by (rule rel_edgeCodePattern[OF r hd])
    have u: "unitIDPattern ?out = unitIDPattern step" by (rule rel_unitIDPattern[OF r hd])
    obtain c rest where s: "step = c # rest" using ne by (cases step) auto
    show ?thesis
    proof (cases "edgeCodePattern step")
      case (Some n)
      from edgeCodePattern_SomeD[OF Some] have n: "1 \<le> n" "n \<le> length step"
        and nc: "COMMA \<notin> set (take (n - 1) rest)" using s by auto
      have o: "?out = (c # take (n - 1) rest) @ scan Directions (drop n step)"
        unfolding scan_Results_edge[OF Some] using take_first[OF n(1), of c rest] s by simp
      have len: "length (c # take (n - 1) rest) = n" using n s by auto
      have d: "drop n ?out = scan Directions (drop n step)"
        unfolding o using drop_prefix_len[OF len] by simp
      have "resultFreeOfCommas ?out"
        using e Some d listFreeOfCommas_scan[of Directions "drop n step"]
        by (simp add: resultFreeOfCommas_def)
      moreover have "commaInvariant (take (n - 1) rest @ scan Directions (drop n step))"
        using commaInvariant_skip[OF nc] "1.IH" Some ne by simp
      ultimately show ?thesis
        unfolding o by simp
    next
      case None
      show ?thesis
      proof (cases "unitIDPattern step")
        case (Some n)
        from unitIDPattern_SomeD[OF Some] have n: "1 \<le> n" "n \<le> length step"
          and nc: "COMMA \<notin> set (take (n - 1) rest)" using s by auto
        have o: "?out = (c # take (n - 1) rest) @ scan UnitIDs (drop n step)"
          unfolding scan_Results_unit[OF None Some] using take_first[OF n(1), of c rest] s by simp
        have len: "length (c # take (n - 1) rest) = n" using n s by auto
        have d: "drop n ?out = scan UnitIDs (drop n step)"
          unfolding o using drop_prefix_len[OF len] by simp
        have "resultFreeOfCommas ?out"
          using e u None Some d listFreeOfCommas_scan[of UnitIDs "drop n step"]
          by (simp add: resultFreeOfCommas_def)
        moreover have "commaInvariant (take (n - 1) rest @ scan UnitIDs (drop n step))"
          using commaInvariant_skip[OF nc] "1.IH" None Some ne by simp
        ultimately show ?thesis
          unfolding o by simp
      next
        case un: None
        let ?t = "takeWhile (\<lambda>c. c \<noteq> COMMA) (tl step)"
        let ?d = "dropWhile (\<lambda>c. c \<noteq> COMMA) (tl step)"
        have o: "?out = hd step # ?t @ scan Results ?d" by (rule scan_Results_skip[OF ne None un])
        have nc: "COMMA \<notin> set ?t" by (rule takeWhile_no_comma)
        have "resultFreeOfCommas ?out"
          using e u None un by (simp add: resultFreeOfCommas_def)
        moreover have "commaInvariant (?t @ scan Results ?d)"
          using commaInvariant_skip[OF nc] "1.IH" None un ne by simp
        ultimately show ?thesis
          unfolding o by simp
      qed
    qed
  qed
next
  case (2 step)
  show ?case
  proof (cases "listDirectionPattern step")
    case None
    with 2 show ?thesis by (simp add: scan_Directions_end)
  next
    case (Some n)
    from listDirectionPattern_SomeD[OF Some] have nc: "COMMA \<notin> set (take (n - 1) (tl step))"
      by simp
    have "commaInvariant (take (n - 1) (tl step) @ scan Directions (drop n step))"
      using commaInvariant_skip[OF nc] "2.IH" Some by simp
    then show ?thesis
      by (simp add: scan_Directions_elem[OF Some] resultFreeOfCommas_no_comma)
  qed
next
  case (3 step)
  show ?case
  proof (cases "listUnitIDPattern step")
    case None
    with 3 show ?thesis by (simp add: scan_UnitIDs_end)
  next
    case (Some n)
    from listUnitIDPattern_SomeD[OF Some] have nc: "COMMA \<notin> set (take (n - 1) (tl step))"
      by simp
    have "commaInvariant (take (n - 1) (tl step) @ scan UnitIDs (drop n step))"
      using commaInvariant_skip[OF nc] "3.IH" Some by simp
    then show ?thesis
      by (simp add: scan_UnitIDs_elem[OF Some] resultFreeOfCommas_no_comma)
  qed
qed

text \<open>
  C5.  After \<open>scrubStepResults\<close>, at every place of the line where a result starts
  with a comma and an edge code, the list of direction codes that follows has no comma
  between its elements, and where a result starts with a comma and a unit ID, the list
  of unit IDs that follows has none: a comma that is left starts a new result.
\<close>

theorem C5_comma_invariant: "commaInvariant (scrubStepResults line)"
proof -
  have "commaInvariant (takeWhile (\<lambda>c. c \<noteq> COMMA) line
      @ scan Results (dropWhile (\<lambda>c. c \<noteq> COMMA) line))"
    using commaInvariant_skip[OF takeWhile_no_comma] commaInvariant_scan by simp
  then show ?thesis
    by (simp add: scrubStepResults_def)
qed

text \<open>
  C10.  \<open>scrubStepResults\<close> keeps the length of the line, and wherever a byte of
  the result differs from the input, the input byte was a comma or whitespace and the
  result byte is a space.
\<close>

theorem C10_scrubStepResults_frame:
  "length (scrubStepResults line) = length line
   \<and> (\<forall>i < length line. scrubStepResults line ! i \<noteq> line ! i \<longrightarrow>
        (line ! i = COMMA \<or> isSpaceChar (line ! i)) \<and> scrubStepResults line ! i = SP)"
proof
  show "length (scrubStepResults line) = length line"
    using scrubStepResults_rel[of line] by (simp add: list_all2_lengthD)
next
  show "\<forall>i < length line. scrubStepResults line ! i \<noteq> line ! i \<longrightarrow>
        (line ! i = COMMA \<or> isSpaceChar (line ! i)) \<and> scrubStepResults line ! i = SP"
  proof (intro allI impI)
    fix i assume "i < length line" "scrubStepResults line ! i \<noteq> line ! i"
    with list_all2_nthD[OF scrubStepResults_rel[of line], of i]
    show "(line ! i = COMMA \<or> isSpaceChar (line ! i)) \<and> scrubStepResults line ! i = SP"
      by (simp add: sepRel_def)
  qed
qed

lemmas pattern_defs = edgeCodePattern_def unitIDPattern_def listDirectionPattern_def
  listUnitIDPattern_def unitIDWord_def edgeCodes_def wordEnd_def isWordChar_def
  isSpaceChar_def isDigit_def isUnitLetter_def digits4_def

lemma scrubStepResults_lists: "scrubStepResults ''a,l,n,0987,0988'' = ''a,l n,0987 0988''"
  by (simp add: scrubStepResults_def scan.simps pattern_defs)

lemma scrubStepResults_example: "scrubStepResults '',l,n'' = '',l n''"
  by (simp add: scrubStepResults_def scan.simps pattern_defs)

theorem C5_comma_invariant_witness:
  "commaInvariant (scrubStepResults '',l,n'') \<and> scrubStepResults '',l,n'' = '',l n''
   \<and> \<not> commaInvariant '',l,n''"
proof -
  have "\<not> commaInvariant '',l,n''"
    by (simp add: resultFreeOfCommas_def listFreeOfCommas.simps pattern_defs)
  with C5_comma_invariant[of "'',l,n''"] scrubStepResults_example show ?thesis by simp
qed

theorem C10_scrubStepResults_frame_witness:
  "(2::nat) < length '',l,n'' \<and> scrubStepResults '',l,n'' ! 2 \<noteq> '',l,n'' ! 2
   \<and> '',l,n'' ! 2 = COMMA \<and> scrubStepResults '',l,n'' ! 2 = SP
   \<and> length (scrubStepResults '',l,n'') = length '',l,n''"
proof -
  have i: "(2::nat) < length '',l,n''" by simp
  have ne: "scrubStepResults '',l,n'' ! 2 \<noteq> '',l,n'' ! 2"
    by (simp add: scrubStepResults_example)
  from C10_scrubStepResults_frame[of "'',l,n''"]
  have len: "length (scrubStepResults '',l,n'') = length '',l,n''"
    and all: "\<forall>i < length '',l,n''. scrubStepResults '',l,n'' ! i \<noteq> '',l,n'' ! i \<longrightarrow>
        ('',l,n'' ! i = COMMA \<or> isSpaceChar ('',l,n'' ! i)) \<and> scrubStepResults '',l,n'' ! i = SP"
    by blast+
  from all i ne have "scrubStepResults '',l,n'' ! 2 = SP" by blast
  moreover have "'',l,n'' ! 2 = COMMA" by simp
  ultimately show ?thesis using i ne len by blast
qed

section \<open>Properties of the punctuation passes\<close>

lemmas pass_defs = ReplaceAll_def reBackslashDash_def reBackslashComma_def reCommaBackslash_def
  reBackslashUnit_def reDirectionUnit_def reRunOfBackslashes_def reRunOfComma_def
  commaParen_def runLength_def unitIDGroup_def directionCodes_def TrimRightBackslash_def

text \<open>Scenario 2 of the spec, on the current \<open>PreProcessMovementLine\<close>.\<close>

lemma PreProcessMovementLine_scenario2:
  "PreProcessMovementLine_part_000 (''tribe movement:move ne-pr'' @ [BSL, BSL] @ ''-pr,o nw'')
   = ''tribe movement:move ne-pr'' @ [BSL] @ ''pr,o nw''"
  by (simp add: PreProcessMovementLine_part_000_def pass_defs pattern_defs)

text \<open>The copy with both passes collapses a backslash followed by a comma.\<close>

lemma PreProcessMovementLine_part_000_backslash_comma:
  "PreProcessMovementLine_part_000 [CHR ''a'', BSL, COMMA, CHR ''b''] = [CHR ''a'', BSL, CHR ''b'']"
  by (simp add: PreProcessMovementLine_part_000_def pass_defs pattern_defs)

lemma scrubMovementLine_backslash_comma:
  "scrubMovementLine (Some [CHR ''a'', BSL, COMMA, CHR ''b'']) = Some [CHR ''a'', BSL, CHR ''b'']"
  by (simp add: scrubMovementLine_def len_def bytesOf_def punctuationPasses_def pass_defs
      pattern_defs scrubStepResults_def scan.simps)

subsection \<open>No backslash next to a comma\<close>

lemma pairFree_Cons:
  "pairFree B (c # xs) \<longleftrightarrow> (xs = [] \<or> \<not> B c (hd xs)) \<and> pairFree B xs"
  by (cases xs) auto

lemma pairFree_append:
  "pairFree B (xs @ ys) \<longleftrightarrow>
     pairFree B xs \<and> pairFree B ys \<and> (xs = [] \<or> ys = [] \<or> \<not> B (last xs) (hd ys))"
proof (induction xs)
  case Nil
  show ?case by simp
next
  case (Cons x xs)
  show ?case
  proof (cases "xs = []")
    case True
    then show ?thesis by (auto simp: pairFree_Cons)
  next
    case False
    with Cons show ?thesis by (auto simp: pairFree_Cons)
  qed
qed

lemma pairFree_drop: "pairFree B s \<Longrightarrow> pairFree B (drop k s)"
  using pairFree_append[of B "take k s" "drop k s"] by simp

lemma pairFree_take: "pairFree B s \<Longrightarrow> pairFree B (take k s)"
  using pairFree_append[of B "take k s" "drop k s"] by simp

lemma pairFree_nth:
  assumes "pairFree B s" "Suc i < length s"
  shows "\<not> B (s ! i) (s ! Suc i)"
proof -
  from assms(2) obtain a b rest where d: "drop i s = a # b # rest"
    by (metis Cons_nth_drop_Suc Suc_lessD)
  then have "a = s ! i" "b = s ! Suc i"
    using assms(2) by (metis Cons_nth_drop_Suc Suc_lessD list.inject)+
  with pairFree_drop[OF assms(1), of i] d show ?thesis by simp
qed

text \<open>
  Conditions on a pattern under which \<open>replaceAll\<close> returns a line free of the pairs
  \<open>B\<close>, for input that satisfies \<open>Pin\<close>.
\<close>

lemma replaceAll_pairFree:
  assumes suffix: "\<And>s k. Pin s \<Longrightarrow> Pin (drop k s)"
    and pos: "\<And>prev s n r. rx prev s = Some (n, r) \<Longrightarrow> 0 < n \<and> pairFree B r"
    and skip: "\<And>prev c cs. Pin (c # cs) \<Longrightarrow> rx prev (c # cs) = None \<Longrightarrow>
        replaceAll rx (Some c) cs \<noteq> [] \<Longrightarrow> \<not> B c (hd (replaceAll rx (Some c) cs))"
    and match: "\<And>prev s n r. Pin s \<Longrightarrow> s \<noteq> [] \<Longrightarrow> rx prev s = Some (n, r) \<Longrightarrow> r \<noteq> [] \<Longrightarrow>
        replaceAll rx (Some (s ! (n - 1))) (drop n s) \<noteq> [] \<Longrightarrow>
        \<not> B (last r) (hd (replaceAll rx (Some (s ! (n - 1))) (drop n s)))"
    and pin: "Pin s"
  shows "pairFree B (replaceAll rx prev s)"
  using pin
proof (induction "length s" arbitrary: s prev rule: less_induct)
  case less
  show ?case
  proof (cases s)
    case Nil
    then show ?thesis by simp
  next
    case (Cons c cs)
    have pc: "Pin (c # cs)" using less.prems Cons by simp
    have pcs: "Pin cs" using suffix[OF pc, of 1] by simp
    show ?thesis
    proof (cases "rx prev (c # cs)")
      case None
      have "pairFree B (replaceAll rx (Some c) cs)"
        using less.hyps[of cs "Some c"] pcs Cons by simp
      with skip[OF pc None] None Cons show ?thesis by (auto simp: pairFree_Cons)
    next
      case (Some a)
      obtain n r where a: "a = (n, r)" by (cases a)
      from pos[OF Some[unfolded a]] have n: "0 < n" and r: "pairFree B r" by auto
      have pd: "Pin (drop n (c # cs))" by (rule suffix[OF pc])
      have ih: "pairFree B (replaceAll rx (Some ((c # cs) ! (n - 1))) (drop n (c # cs)))"
        using less.hyps[of "drop n (c # cs)" "Some ((c # cs) ! (n - 1))"] pd n Cons by simp
      have e: "replaceAll rx prev (c # cs)
          = r @ replaceAll rx (Some ((c # cs) ! (n - 1))) (drop n (c # cs))"
        using Some a n by simp
      show ?thesis
        unfolding Cons e pairFree_append
        using r ih match[OF pc _ Some[unfolded a]] by auto
    qed
  qed
qed

lemma replaceAll_Nil_iff:
  assumes "\<forall>prev s n r. rx prev s = Some (n, r) \<longrightarrow> 0 < n \<and> r \<noteq> []"
  shows "replaceAll rx prev s = [] \<longleftrightarrow> s = []"
proof (cases s)
  case Nil
  then show ?thesis by simp
next
  case (Cons c cs)
  show ?thesis
  proof (cases "rx prev (c # cs)")
    case None
    with Cons show ?thesis by simp
  next
    case (Some a)
    obtain n r where a: "a = (n, r)" by (cases a)
    with assms Some Cons have "0 < n \<and> r \<noteq> []" by blast
    with a Some Cons show ?thesis by simp
  qed
qed

lemma replaceAll_hd:
  assumes "s \<noteq> []" "\<forall>prev s n r. rx prev s = Some (n, r) \<longrightarrow> 0 < n \<and> r \<noteq> []"
  shows "hd (replaceAll rx prev s) = (case rx prev s of None \<Rightarrow> hd s | Some (n, r) \<Rightarrow> hd r)"
proof -
  from assms(1) obtain c cs where s: "s = c # cs" by (cases s) auto
  show ?thesis
  proof (cases "rx prev (c # cs)")
    case None
    with s show ?thesis by simp
  next
    case (Some a)
    obtain n r where a: "a = (n, r)" by (cases a)
    with assms(2) Some s have "0 < n \<and> r \<noteq> []" by blast
    with a Some s show ?thesis by simp
  qed
qed

text \<open>
  A pattern whose replacement begins and ends with the bytes of its match, or with bytes
  that are in no pair, keeps a line free of pairs.
\<close>

lemma replaceAll_pairFree_stable:
  assumes pos: "\<And>prev s n r. rx prev s = Some (n, r) \<Longrightarrow>
        0 < n \<and> r \<noteq> [] \<and> pairFree B r
        \<and> (hd r = hd s \<or> (\<forall>x. \<not> B x (hd r)))
        \<and> (last r = s ! (n - 1) \<or> (\<forall>y. \<not> B (last r) y))"
    and free: "pairFree B s"
  shows "pairFree B (replaceAll rx prev s)"
proof (rule replaceAll_pairFree[where Pin = "pairFree B"])
  show "pairFree B (drop k s)" if "pairFree B s" for s k using that by (rule pairFree_drop)
  show "0 < n \<and> pairFree B r" if "rx prev s = Some (n, r)" for prev s n r
    using pos[OF that] by simp
  show "pairFree B s" by (rule free)
  have ne: "\<forall>prev s n r. rx prev s = Some (n, r) \<longrightarrow> 0 < n \<and> r \<noteq> []"
    using pos by blast
  show "\<not> B c (hd (replaceAll rx (Some c) cs))"
    if p: "pairFree B (c # cs)" and "rx prev (c # cs) = None"
      and o: "replaceAll rx (Some c) cs \<noteq> []" for prev c cs
  proof -
    from o have cs: "cs \<noteq> []" using replaceAll_Nil_iff[OF ne] by blast
    from p cs have b: "\<not> B c (hd cs)" by (simp add: pairFree_Cons)
    show ?thesis
    proof (cases "rx (Some c) cs")
      case None
      have "hd (replaceAll rx (Some c) cs) = hd cs"
        using replaceAll_hd[OF cs ne, of "Some c"] None by simp
      then show ?thesis using b by simp
    next
      case (Some a)
      obtain n r where a: "a = (n, r)" by (cases a)
      have "hd (replaceAll rx (Some c) cs) = hd r"
        using replaceAll_hd[OF cs ne, of "Some c"] Some a by simp
      with pos[OF Some[unfolded a]] b show ?thesis by auto
    qed
  qed
  show "\<not> B (last r) (hd (replaceAll rx (Some (s ! (n - 1))) (drop n s)))"
    if p: "pairFree B s" and "s \<noteq> []" and m: "rx prev s = Some (n, r)" and "r \<noteq> []"
      and o: "replaceAll rx (Some (s ! (n - 1))) (drop n s) \<noteq> []" for prev s n r
  proof -
    from o have d: "drop n s \<noteq> []" using replaceAll_Nil_iff[OF ne] by blast
    then have nl: "n < length s" by simp
    from pos[OF m] have n: "0 < n" by simp
    have hdd: "hd (drop n s) = s ! n" using nl by (simp add: hd_drop_conv_nth)
    have b: "\<not> B (s ! (n - 1)) (s ! n)"
      using pairFree_nth[OF p, of "n - 1"] n nl by simp
    have l: "last r = s ! (n - 1) \<or> (\<forall>y. \<not> B (last r) y)" using pos[OF m] by simp
    show ?thesis
    proof (cases "rx (Some (s ! (n - 1))) (drop n s)")
      case None
      have "hd (replaceAll rx (Some (s ! (n - 1))) (drop n s)) = hd (drop n s)"
        using replaceAll_hd[OF d ne, of "Some (s ! (n - 1))"] None by simp
      then show ?thesis using b l hdd by auto
    next
      case (Some a)
      obtain n' r' where a: "a = (n', r')" by (cases a)
      have "hd (replaceAll rx (Some (s ! (n - 1))) (drop n s)) = hd r'"
        using replaceAll_hd[OF d ne, of "Some (s ! (n - 1))"] Some a by simp
      with pos[OF Some[unfolded a]] b l hdd show ?thesis by auto
    qed
  qed
qed

lemma runLength_Cons: "runLength ch (c # cs) = (if c = ch then Suc (runLength ch cs) else 0)"
  by (simp add: runLength_def)

lemma runLength_Nil: "runLength ch [] = 0"
  by (simp add: runLength_def)

lemma runLength_le: "runLength ch s \<le> length s"
  by (simp add: runLength_def length_takeWhile_le)

lemma runLength_nth: "i < runLength ch s \<Longrightarrow> s ! i = ch"
  unfolding runLength_def
  using takeWhile_nth[of i "\<lambda>c. c = ch" s] nth_mem[of i "takeWhile (\<lambda>c. c = ch) s"]
  by (metis (mono_tags, lifting) set_takeWhileD)

lemma drop_runLength: "drop (runLength ch s) s = dropWhile (\<lambda>c. c = ch) s"
  by (simp add: runLength_def dropWhile_eq_drop)

lemma runLength_end: "runLength ch s < length s \<Longrightarrow> s ! runLength ch s \<noteq> ch"
  unfolding runLength_def using nth_length_takeWhile[of "\<lambda>c. c = ch" s] by simp

lemma runLength_hd: "0 < runLength ch s \<Longrightarrow> s \<noteq> [] \<and> hd s = ch"
  by (cases s) (auto simp: runLength_Cons runLength_Nil split: if_splits)

lemma runLength_hd_iff: "0 < runLength ch s \<longleftrightarrow> s \<noteq> [] \<and> hd s = ch"
  by (cases s) (auto simp: runLength_Cons runLength_Nil)

text \<open>Bytes of a unit ID are digits and letters.\<close>

lemma unitIDGroup_SomeD:
  assumes "unitIDGroup s = Some k"
  shows "1 \<le> k \<and> k \<le> length s \<and> BSL \<notin> set (take k s) \<and> COMMA \<notin> set (take k s)"
proof -
  from assms have m: "matchSeq digits4 s" by (auto simp: unitIDGroup_def split: if_splits)
  then obtain a b c d r where s: "s = a # b # c # d # r"
    and dg: "isDigit a" "isDigit b" "isDigit c" "isDigit d"
    unfolding digits4_def matchSeq_Cons_iff by auto
  have nc: "x \<noteq> COMMA \<and> x \<noteq> BSL" if "isDigit x \<or> isUnitLetter x" for x
    using that by (auto simp: isDigit_def isUnitLetter_def)
  from assms consider (six) "k = 6" "matchSeq [isUnitLetter, isDigit] (drop 4 s)" | (four) "k = 4"
    by (auto simp: unitIDGroup_def split: if_splits)
  then show ?thesis
  proof cases
    case six
    then obtain e f r' where r: "r = e # f # r'" and ef: "isUnitLetter e" "isDigit f"
      unfolding s matchSeq_Cons_iff by auto
    with dg nc[of a] nc[of b] nc[of c] nc[of d] nc[of e] nc[of f] six(1) show ?thesis
      by (auto simp: s)
  next
    case four
    with dg nc[of a] nc[of b] nc[of c] nc[of d] show ?thesis by (auto simp: s)
  qed
qed

lemma no_backslash_pairFree: "BSL \<notin> set r \<Longrightarrow> pairFree separatorPair r"
proof (induction r)
  case Nil
  show ?case by simp
next
  case (Cons a r)
  then show ?case by (cases r) (auto simp: separatorPair_def)
qed

lemma inert_byte:
  "c \<noteq> BSL \<Longrightarrow> c \<noteq> COMMA \<Longrightarrow> (\<forall>x. \<not> separatorPair x c) \<and> (\<forall>y. \<not> separatorPair c y)"
  by (simp add: separatorPair_def)

lemma reRunOfBackslashes_free:
  assumes "pairFree separatorPair s"
  shows "pairFree separatorPair (replaceAll reRunOfBackslashes prev s)"
proof (rule replaceAll_pairFree_stable[OF _ assms])
  fix prev s n r assume m: "reRunOfBackslashes prev s = Some (n, r)"
  then have n: "n = runLength BSL s" "2 \<le> n" and r: "r = [BSL]"
    by (auto simp: reRunOfBackslashes_def Let_def split: if_splits)
  have "hd s = BSL" using runLength_hd[of BSL s] n by simp
  moreover have "s ! (n - 1) = BSL" using runLength_nth[of "n - 1" BSL s] n by simp
  ultimately show "0 < n \<and> r \<noteq> [] \<and> pairFree separatorPair r
        \<and> (hd r = hd s \<or> (\<forall>x. \<not> separatorPair x (hd r)))
        \<and> (last r = s ! (n - 1) \<or> (\<forall>y. \<not> separatorPair (last r) y))"
    using n r by simp
qed

lemma reRunOfComma_free:
  assumes "pairFree separatorPair s"
  shows "pairFree separatorPair (replaceAll reRunOfComma prev s)"
proof (rule replaceAll_pairFree_stable[OF _ assms])
  fix prev s n r assume m: "reRunOfComma prev s = Some (n, r)"
  then have n: "n = runLength COMMA s" "2 \<le> n" and r: "r = [COMMA]"
    by (auto simp: reRunOfComma_def Let_def split: if_splits)
  have "hd s = COMMA" using runLength_hd[of COMMA s] n by simp
  moreover have "s ! (n - 1) = COMMA" using runLength_nth[of "n - 1" COMMA s] n by simp
  ultimately show "0 < n \<and> r \<noteq> [] \<and> pairFree separatorPair r
        \<and> (hd r = hd s \<or> (\<forall>x. \<not> separatorPair x (hd r)))
        \<and> (last r = s ! (n - 1) \<or> (\<forall>y. \<not> separatorPair (last r) y))"
    using n r by simp
qed

lemma commaParen_free:
  assumes "pairFree separatorPair s"
  shows "pairFree separatorPair (replaceAll commaParen prev s)"
proof (rule replaceAll_pairFree_stable[OF _ assms])
  fix prev s n r assume m: "commaParen prev s = Some (n, r)"
  then have "n = 2" "r = [CHR '')'']"
    by (auto simp: commaParen_def split: if_splits)
  then show "0 < n \<and> r \<noteq> [] \<and> pairFree separatorPair r
        \<and> (hd r = hd s \<or> (\<forall>x. \<not> separatorPair x (hd r)))
        \<and> (last r = s ! (n - 1) \<or> (\<forall>y. \<not> separatorPair (last r) y))"
    by (simp add: separatorPair_def)
qed

lemma reDirectionUnit_free:
  assumes "pairFree separatorPair s"
  shows "pairFree separatorPair (replaceAll reDirectionUnit prev s)"
proof (rule replaceAll_pairFree_stable[OF _ assms])
  fix prev s n r assume m: "reDirectionUnit prev s = Some (n, r)"
  then obtain dir k where f: "find (\<lambda>dir. prefix (dir @ [SP]) s
        \<and> unitIDGroup (drop (length dir + 1) s) \<noteq> None) directionCodes = Some dir"
    and u: "unitIDGroup (drop (length dir + 1) s) = Some k"
    and n: "n = length dir + 1 + k"
    and r: "r = dir @ [COMMA] @ take k (drop (length dir + 1) s)"
    by (auto simp: reDirectionUnit_def split: if_splits option.splits)
  from f have "dir \<in> set directionCodes" unfolding find_Some_iff by (metis nth_mem)
  then have d: "dir \<noteq> []" "BSL \<notin> set dir" "hd dir \<noteq> BSL" "hd dir \<noteq> COMMA"
    by (auto simp: directionCodes_def)
  let ?u = "take k (drop (length dir + 1) s)"
  from unitIDGroup_SomeD[OF u] have k: "1 \<le> k" "k \<le> length (drop (length dir + 1) s)"
    and ub: "BSL \<notin> set ?u" and uc: "COMMA \<notin> set ?u" by auto
  have une: "?u \<noteq> []" using k by auto
  then have "last ?u \<in> set ?u" by (rule last_in_set)
  with ub uc have lu: "last ?u \<noteq> BSL" "last ?u \<noteq> COMMA" by auto
  have "pairFree separatorPair r"
    using d(2) ub unfolding r by (intro no_backslash_pairFree) simp
  moreover have "hd r = hd dir" using d(1) r by simp
  moreover have "last r = last ?u" using une r by simp
  ultimately show "0 < n \<and> r \<noteq> [] \<and> pairFree separatorPair r
        \<and> (hd r = hd s \<or> (\<forall>x. \<not> separatorPair x (hd r)))
        \<and> (last r = s ! (n - 1) \<or> (\<forall>y. \<not> separatorPair (last r) y))"
    using n r d(3,4) lu inert_byte by simp
qed

lemma reBackslashComma_Some_iff:
  "reBackslashComma prev s = Some (n, r) \<longleftrightarrow>
     0 < runLength BSL s \<and> 0 < runLength COMMA (drop (runLength BSL s) s)
     \<and> n = runLength BSL s + runLength COMMA (drop (runLength BSL s) s) \<and> r = [BSL]"
  by (auto simp: reBackslashComma_def Let_def)

lemma reBackslashComma_None_iff:
  "reBackslashComma prev s = None \<longleftrightarrow>
     \<not> (0 < runLength BSL s \<and> 0 < runLength COMMA (drop (runLength BSL s) s))"
  by (auto simp: reBackslashComma_def Let_def)

text \<open>After the pass for \<open>\\+,+\<close> no backslash is followed by a comma.\<close>

lemma reBackslashComma_free: "pairFree backslashComma (replaceAll reBackslashComma prev s)"
proof (rule replaceAll_pairFree[where Pin = "\<lambda>s. True"])
  show True ..
  show True ..
  have ne: "\<forall>prev s n r. reBackslashComma prev s = Some (n, r) \<longrightarrow> 0 < n \<and> r \<noteq> []"
    by (auto simp: reBackslashComma_Some_iff)
  show "0 < n \<and> pairFree backslashComma r" if "reBackslashComma prev s = Some (n, r)" for prev s n r
    using that by (auto simp: reBackslashComma_Some_iff)
  show "\<not> backslashComma c (hd (replaceAll reBackslashComma (Some c) cs))"
    if no: "reBackslashComma prev (c # cs) = None"
      and o: "replaceAll reBackslashComma (Some c) cs \<noteq> []" for prev c cs
  proof
    assume b: "backslashComma c (hd (replaceAll reBackslashComma (Some c) cs))"
    from o have cs: "cs \<noteq> []" using replaceAll_Nil_iff[OF ne] by blast
    from b have c: "c = BSL" and h: "hd (replaceAll reBackslashComma (Some c) cs) = COMMA"
      by (auto simp: backslashComma_def)
    have "reBackslashComma (Some c) cs = None"
    proof (rule ccontr)
      assume "reBackslashComma (Some c) cs \<noteq> None"
      then obtain n r where s: "reBackslashComma (Some c) cs = Some (n, r)" by auto
      then have "r = [BSL]" by (simp add: reBackslashComma_Some_iff)
      with replaceAll_hd[OF cs ne, of "Some c"] s h show False by simp
    qed
    with replaceAll_hd[OF cs ne, of "Some c"] h have hc: "hd cs = COMMA" by simp
    then obtain ds where d: "cs = COMMA # ds" using cs by (cases cs) auto
    have "runLength BSL (c # cs) = 1" using c d by (simp add: runLength_Cons)
    moreover have "0 < runLength COMMA (drop 1 (c # cs))" using d by (simp add: runLength_Cons)
    ultimately show False using no by (simp add: reBackslashComma_None_iff)
  qed
  show "\<not> backslashComma (last r) (hd (replaceAll reBackslashComma (Some (s ! (n - 1))) (drop n s)))"
    if m: "reBackslashComma prev s = Some (n, r)"
      and o: "replaceAll reBackslashComma (Some (s ! (n - 1))) (drop n s) \<noteq> []" for prev s n r
  proof
    let ?p = "Some (s ! (n - 1))"
    assume b: "backslashComma (last r) (hd (replaceAll reBackslashComma ?p (drop n s)))"
    from o have d: "drop n s \<noteq> []" using replaceAll_Nil_iff[OF ne] by blast
    from b have h: "hd (replaceAll reBackslashComma ?p (drop n s)) = COMMA"
      by (auto simp: backslashComma_def)
    have "reBackslashComma ?p (drop n s) = None"
    proof (rule ccontr)
      assume "reBackslashComma ?p (drop n s) \<noteq> None"
      then obtain n' r' where s: "reBackslashComma ?p (drop n s) = Some (n', r')" by auto
      then have "r' = [BSL]" by (simp add: reBackslashComma_Some_iff)
      with replaceAll_hd[OF d ne, of ?p] s h show False by simp
    qed
    with replaceAll_hd[OF d ne, of ?p] h have hc: "hd (drop n s) = COMMA" by simp
    let ?b = "runLength BSL s"
    from m have n: "n = ?b + runLength COMMA (drop ?b s)" by (simp add: reBackslashComma_Some_iff)
    have "drop n s = dropWhile (\<lambda>c. c = COMMA) (drop ?b s)"
      unfolding n using drop_runLength[of COMMA "drop ?b s"] by (simp add: add.commute)
    with d hd_dropWhile[of "\<lambda>c. c = COMMA" "drop ?b s"] hc show False by simp
  qed
qed

lemma reCommaBackslash_Some_iff:
  "reCommaBackslash prev s = Some (n, r) \<longleftrightarrow>
     0 < runLength COMMA s \<and> prefix [BSL] (drop (runLength COMMA s) s)
     \<and> n = runLength COMMA s + 1 \<and> r = [BSL]"
  by (auto simp: reCommaBackslash_def Let_def)

lemma reCommaBackslash_None_iff:
  "reCommaBackslash prev s = None \<longleftrightarrow>
     \<not> (0 < runLength COMMA s \<and> prefix [BSL] (drop (runLength COMMA s) s))"
  by (auto simp: reCommaBackslash_def Let_def)

text \<open>
  After the pass for \<open>,+\\\<close>, on a line where no backslash is followed by a comma, no
  backslash is next to a comma.
\<close>

lemma reCommaBackslash_free:
  assumes "pairFree backslashComma s"
  shows "pairFree separatorPair (replaceAll reCommaBackslash prev s)"
proof (rule replaceAll_pairFree[where Pin = "pairFree backslashComma", OF _ _ _ _ assms])
  show "pairFree backslashComma (drop k s)" if "pairFree backslashComma s" for s k
    using that by (rule pairFree_drop)
  have ne: "\<forall>prev s n r. reCommaBackslash prev s = Some (n, r) \<longrightarrow> 0 < n \<and> r \<noteq> []"
    by (auto simp: reCommaBackslash_Some_iff)
  show "0 < n \<and> pairFree separatorPair r" if "reCommaBackslash prev s = Some (n, r)" for prev s n r
    using that by (auto simp: reCommaBackslash_Some_iff)
  show "\<not> separatorPair c (hd (replaceAll reCommaBackslash (Some c) cs))"
    if p: "pairFree backslashComma (c # cs)" and no: "reCommaBackslash prev (c # cs) = None"
      and o: "replaceAll reCommaBackslash (Some c) cs \<noteq> []" for prev c cs
  proof
    let ?h = "hd (replaceAll reCommaBackslash (Some c) cs)"
    assume b: "separatorPair c ?h"
    from o have cs: "cs \<noteq> []" using replaceAll_Nil_iff[OF ne] by blast
    from p cs have nbc: "\<not> (c = BSL \<and> hd cs = COMMA)"
      by (simp add: pairFree_Cons backslashComma_def)
    show False
    proof (cases "reCommaBackslash (Some c) cs")
      case None
      with replaceAll_hd[OF cs ne, of "Some c"] have h: "?h = hd cs" by simp
      with b nbc have c: "c = COMMA" and hc: "hd cs = BSL" by (auto simp: separatorPair_def)
      then obtain ds where d: "cs = BSL # ds" using cs by (cases cs) auto
      have "runLength COMMA (c # cs) = 1" using c d by (simp add: runLength_Cons)
      moreover have "prefix [BSL] (drop 1 (c # cs))" using d by simp
      ultimately show False using no by (simp add: reCommaBackslash_None_iff)
    next
      case (Some a)
      obtain n r where a: "a = (n, r)" by (cases a)
      with Some have k: "0 < runLength COMMA cs"
        and pb: "prefix [BSL] (drop (runLength COMMA cs) cs)" and r: "r = [BSL]"
        by (auto simp: reCommaBackslash_Some_iff)
      from replaceAll_hd[OF cs ne, of "Some c"] Some a r have "?h = BSL" by simp
      with b have c: "c = COMMA" by (auto simp: separatorPair_def)
      have "runLength COMMA (c # cs) = Suc (runLength COMMA cs)" using c by (simp add: runLength_Cons)
      with pb no show False by (simp add: reCommaBackslash_None_iff)
    qed
  qed
  show "\<not> separatorPair (last r) (hd (replaceAll reCommaBackslash (Some (s ! (n - 1))) (drop n s)))"
    if p: "pairFree backslashComma s" and m: "reCommaBackslash prev s = Some (n, r)"
      and o: "replaceAll reCommaBackslash (Some (s ! (n - 1))) (drop n s) \<noteq> []" for prev s n r
  proof
    let ?p = "Some (s ! (n - 1))"
    let ?h = "hd (replaceAll reCommaBackslash ?p (drop n s))"
    assume b: "separatorPair (last r) ?h"
    from o have d: "drop n s \<noteq> []" using replaceAll_Nil_iff[OF ne] by blast
    then have nl: "n < length s" by simp
    let ?k = "runLength COMMA s"
    from m have n: "n = ?k + 1" and r: "r = [BSL]" and pb: "prefix [BSL] (drop ?k s)"
      by (auto simp: reCommaBackslash_Some_iff)
    from b r have h: "?h = COMMA" by (auto simp: separatorPair_def)
    have "reCommaBackslash ?p (drop n s) = None"
    proof (rule ccontr)
      assume "reCommaBackslash ?p (drop n s) \<noteq> None"
      then obtain n' r' where s: "reCommaBackslash ?p (drop n s) = Some (n', r')" by auto
      then have "r' = [BSL]" by (simp add: reCommaBackslash_Some_iff)
      with replaceAll_hd[OF d ne, of ?p] s h show False by simp
    qed
    with replaceAll_hd[OF d ne, of ?p] h have "hd (drop n s) = COMMA" by simp
    then have sn: "s ! n = COMMA" using nl by (simp add: hd_drop_conv_nth)
    from pb nl n have "s ! ?k = BSL"
      by (metis Suc_eq_plus1 Suc_lessD hd_drop_conv_nth list.sel(1) prefix_Cons
          append_Nil prefix_def append_Cons)
    with pairFree_nth[OF p, of ?k] nl n sn show False by (simp add: backslashComma_def)
  qed
qed

lemma reBackslashUnit_SomeD:
  assumes "reBackslashUnit prev s = Some (n, r)"
  shows "0 < runLength BSL s
     \<and> (\<exists>k. unitIDGroup (drop (runLength BSL s) s) = Some k \<and> n = runLength BSL s + k
            \<and> r = COMMA # take k (drop (runLength BSL s) s))"
  using assms by (auto simp: reBackslashUnit_def Let_def split: if_splits option.splits)

lemma reBackslashUnit_None_iff:
  "reBackslashUnit prev s = None \<longleftrightarrow>
     \<not> (0 < runLength BSL s \<and> unitIDGroup (drop (runLength BSL s) s) \<noteq> None)"
  by (auto simp: reBackslashUnit_def Let_def split: option.splits)

text \<open>
  The pass for \<open>\\+(\d{4}(?:[cefg]\d)?)\<close> writes a comma where the backslashes were; it
  takes all the backslashes before the unit ID, so none is left before the comma.
\<close>

lemma reBackslashUnit_free:
  assumes "pairFree separatorPair s"
  shows "pairFree separatorPair (replaceAll reBackslashUnit prev s)"
proof (rule replaceAll_pairFree[where Pin = "pairFree separatorPair", OF _ _ _ _ assms])
  show "pairFree separatorPair (drop k s)" if "pairFree separatorPair s" for s k
    using that by (rule pairFree_drop)
  have shape: "0 < n \<and> r \<noteq> [] \<and> hd r = COMMA \<and> BSL \<notin> set r
      \<and> last r \<noteq> BSL \<and> last r \<noteq> COMMA"
    if m: "reBackslashUnit prev s = Some (n, r)" for prev s n r
  proof -
    let ?d = "drop (runLength BSL s) s"
    from reBackslashUnit_SomeD[OF m] obtain k where b: "0 < runLength BSL s"
      and u: "unitIDGroup ?d = Some k" and n: "n = runLength BSL s + k"
      and r: "r = COMMA # take k ?d" by blast
    from unitIDGroup_SomeD[OF u] have k: "1 \<le> k" "k \<le> length ?d"
      and ub: "BSL \<notin> set (take k ?d)" and uc: "COMMA \<notin> set (take k ?d)" by auto
    have une: "take k ?d \<noteq> []" using k by auto
    then have "last (take k ?d) \<in> set (take k ?d)" by (rule last_in_set)
    with ub uc have "last (take k ?d) \<noteq> BSL" "last (take k ?d) \<noteq> COMMA" by auto
    moreover have "last r = last (take k ?d)" using une r by simp
    ultimately show ?thesis using b n r ub by simp
  qed
  then have ne: "\<forall>prev s n r. reBackslashUnit prev s = Some (n, r) \<longrightarrow> 0 < n \<and> r \<noteq> []"
    by blast
  show "0 < n \<and> pairFree separatorPair r" if "reBackslashUnit prev s = Some (n, r)" for prev s n r
    using shape[OF that] no_backslash_pairFree[of r] by simp
  show "\<not> separatorPair c (hd (replaceAll reBackslashUnit (Some c) cs))"
    if p: "pairFree separatorPair (c # cs)" and no: "reBackslashUnit prev (c # cs) = None"
      and o: "replaceAll reBackslashUnit (Some c) cs \<noteq> []" for prev c cs
  proof
    let ?h = "hd (replaceAll reBackslashUnit (Some c) cs)"
    assume b: "separatorPair c ?h"
    from o have cs: "cs \<noteq> []" using replaceAll_Nil_iff[OF ne] by blast
    from p cs have nb: "\<not> separatorPair c (hd cs)" by (simp add: pairFree_Cons)
    show False
    proof (cases "reBackslashUnit (Some c) cs")
      case None
      with replaceAll_hd[OF cs ne, of "Some c"] have "?h = hd cs" by simp
      with b nb show False by simp
    next
      case (Some a)
      obtain n r where a: "a = (n, r)" by (cases a)
      from shape[OF Some[unfolded a]] replaceAll_hd[OF cs ne, of "Some c"] Some a
      have "?h = COMMA" by simp
      with b have c: "c = BSL" by (auto simp: separatorPair_def)
      from reBackslashUnit_SomeD[OF Some[unfolded a]]
      have u: "unitIDGroup (drop (runLength BSL cs) cs) \<noteq> None" by auto
      have "runLength BSL (c # cs) = Suc (runLength BSL cs)" using c by (simp add: runLength_Cons)
      with u no show False by (simp add: reBackslashUnit_None_iff)
    qed
  qed
  show "\<not> separatorPair (last r) (hd (replaceAll reBackslashUnit (Some (s ! (n - 1))) (drop n s)))"
    if "reBackslashUnit prev s = Some (n, r)" for prev s n r
    using shape[OF that] by (simp add: separatorPair_def)
qed

text \<open>\<open>scrubStepResults\<close> writes spaces only, so it makes no pair.\<close>

lemma rel_pairFree: "rel a b \<Longrightarrow> pairFree separatorPair a \<Longrightarrow> pairFree separatorPair b"
proof (induction a b rule: list_all2_induct)
  case Nil
  show ?case by simp
next
  case (Cons x xs y ys)
  show ?case
  proof (cases ys)
    case Nil
    then show ?thesis by simp
  next
    case ys: (Cons y' ys')
    with Cons.hyps(2) obtain x' xs' where xs: "xs = x' # xs'" and r: "sepRel x' y'"
      by (cases xs) auto
    from Cons.prems xs have "\<not> separatorPair x x'" by simp
    with Cons.hyps(1) r have "\<not> separatorPair y y'"
      by (auto simp: sepRel_def separatorPair_def isSpaceChar_def)
    moreover have "pairFree separatorPair ys" using Cons xs by simp
    ultimately show ?thesis using ys by simp
  qed
qed

lemma scrubStepResults_free:
  "pairFree separatorPair line \<Longrightarrow> pairFree separatorPair (scrubStepResults line)"
  using rel_pairFree[OF scrubStepResults_rel] .

text \<open>\<open>bytes.TrimRight\<close> returns a prefix of the line.\<close>

lemma TrimRightBackslash_take:
  "TrimRightBackslash line = take (length (dropWhile (\<lambda>c. c = BSL) (rev line))) line"
proof -
  let ?t = "takeWhile (\<lambda>c. c = BSL) (rev line)"
  let ?d = "dropWhile (\<lambda>c. c = BSL) (rev line)"
  have "rev (rev line) = rev (?t @ ?d)" by (simp only: takeWhile_dropWhile_id)
  then have "line = rev ?d @ rev ?t" by (simp only: rev_rev_ident rev_append)
  then have "take (length (rev ?d)) line = rev ?d"
    by (metis append_eq_conv_conj)
  then show ?thesis by (simp add: TrimRightBackslash_def)
qed

lemma TrimRightBackslash_free:
  "pairFree separatorPair line \<Longrightarrow> pairFree separatorPair (TrimRightBackslash line)"
  unfolding TrimRightBackslash_take by (rule pairFree_take)

text \<open>
  After the seven passes of \<open>parse.go\<close>, and in what the scrubbers and the newer
  \<open>PreProcessMovementLine\<close> return, no backslash is next to a comma.
\<close>

lemma punctuationPasses_free: "pairFree separatorPair (punctuationPasses line)"
  unfolding punctuationPasses_def Let_def ReplaceAll_def
  by (intro reRunOfComma_free reRunOfBackslashes_free reDirectionUnit_free
      reBackslashUnit_free reCommaBackslash_free reBackslashComma_free)

lemma PreProcessMovementLine_part_000_free:
  "pairFree separatorPair (PreProcessMovementLine_part_000 line)"
  unfolding PreProcessMovementLine_part_000_def Let_def ReplaceAll_def
  by (intro TrimRightBackslash_free commaParen_free reRunOfComma_free reRunOfBackslashes_free
      reDirectionUnit_free reBackslashUnit_free reCommaBackslash_free reBackslashComma_free)

lemma scrubMovementLine_free: "pairFree separatorPair (bytesOf (scrubMovementLine line))"
proof (cases "len line = 0")
  case True
  then have "bytesOf line = []" by (cases line) (simp_all add: len_def bytesOf_def)
  with True show ?thesis by (simp add: scrubMovementLine_def)
next
  case False
  then show ?thesis
    by (simp add: scrubMovementLine_def bytesOf_def TrimRightBackslash_free
        scrubStepResults_free punctuationPasses_free)
qed

lemma scrubStatusLine_free: "pairFree separatorPair (bytesOf (scrubStatusLine line))"
proof (cases "len line = 0")
  case True
  then have "bytesOf line = []" by (cases line) (simp_all add: len_def bytesOf_def)
  with True show ?thesis by (simp add: scrubStatusLine_def)
next
  case False
  then show ?thesis
    by (simp add: scrubStatusLine_def bytesOf_def TrimRightBackslash_free
        scrubStepResults_free punctuationPasses_free)
qed

lemma scrubFleetLine_free: "pairFree separatorPair (bytesOf (scrubFleetLine line))"
proof (cases "len line = 0")
  case True
  then have "bytesOf line = []" by (cases line) (simp_all add: len_def bytesOf_def)
  with True show ?thesis by (simp add: scrubFleetLine_def)
next
  case False
  then show ?thesis
    by (simp add: scrubFleetLine_def bytesOf_def ReplaceAll_def TrimRightBackslash_free
        commaParen_free punctuationPasses_free)
qed

lemma scrubScoutLine_free: "pairFree separatorPair (scrubScoutLine line)"
  by (simp add: scrubScoutLine_def TrimRightBackslash_free scrubStepResults_free
      punctuationPasses_free)

text \<open>The copy in \<open>src/filters.go\<close> returns a line with such a pair.\<close>

lemma PreProcessMovementLine_filters_pair:
  "\<not> pairFree separatorPair (PreProcessMovementLine_filters [CHR ''a'', BSL, COMMA, CHR ''b''])"
  by (simp add: PreProcessMovementLine_filters_def pass_defs pattern_defs separatorPair_def)

text \<open>
  C8.  The claim says that \<open>PreProcessMovementLine\<close> replaces backslashes followed by
  commas by a single backslash.  The copy in \<open>src/filters.go\<close> has no such pass: it
  returns \<open>a\,b\<close> as it is, where the copy in \<open>src/unnamed/part_000\<close> and the
  scrubbers of \<open>parse.go\<close> leave no backslash next to a comma on any line.
\<close>

theorem C8_filters_keeps_backslash_comma:
  "PreProcessMovementLine_filters [CHR ''a'', BSL, COMMA, CHR ''b'']
   = [CHR ''a'', BSL, COMMA, CHR ''b'']"
  by (simp add: PreProcessMovementLine_filters_def pass_defs pattern_defs)

section \<open>Properties of the parsing entry points\<close>

lemma ParseSections_empty: "ParseSections lib docx [] = Inl ErrEmptyInput"
  by (simp add: ParseSections_def)

lemma ParseText_error_iff: "ParseText lib input = Inl ErrUnknownFormat \<longleftrightarrow> \<not> textCheck input"
  by (simp add: ParseText_def Let_def)

lemma ParseText_ok:
  "textCheck input \<Longrightarrow>
   ParseText lib input = Inr (map (scrubSection lib) (SectionInput (CompressSpaces (ToLower lib input))))"
  by (simp add: ParseText_def Let_def)

lemma ParseText_only_error: "ParseText lib input = Inl e \<Longrightarrow> e = ErrUnknownFormat"
  by (auto simp: ParseText_def Let_def split: if_splits)

lemma ParseSections_errors:
  assumes "ParseSections lib docx input = Inl e"
  shows "e = ErrEmptyInput \<or> e = ErrUnknownFormat
         \<or> (IsDocx docx input \<and> ReadBuffer docx input = Inl e)"
  using assms ParseText_only_error
  by (auto simp: ParseSections_def ParseDocx_def split: if_splits sum.splits)

lemma ParseSections_text:
  assumes "input \<noteq> []" "\<not> IsDocx docx input"
  shows "ParseSections lib docx input = ParseText lib input"
  using assms by (simp add: ParseSections_def ParseDocx_def)

lemma example_lower:
  "asciiLower example_text = ''tribe 0987,  a\<newline>0987 status: x,l,n''"
  by (simp add: asciiLower_def example_text_def)

lemma example_compressed:
  "CompressSpaces (''tribe 0987,  a\<newline>0987 status: x,l,n'')
   = ''tribe 0987,a\<newline>0987 status:x,l,n''"
  by (simp add: CompressSpaces_def isBlank_def isSpaceDelimiter_def)

lemma example_sections:
  "SectionInput (''tribe 0987,a\<newline>0987 status:x,l,n'')
   = [(newSection 1 ''tribe 0987,a'')\<lparr>Status := Some ''0987 status:x,l,n''\<rparr>]"
proof -
  have sp: "splitLines (''tribe 0987,a\<newline>0987 status:x,l,n'')
      = [''tribe 0987,a'', ''0987 status:x,l,n'']"
    by (simp add: splitLines_Cons splitLines_Nil)
  have st: "IsUnitStatus ''0987 status:x,l,n''"
    by (simp add: IsUnitStatus_def rxTribeStatus_def lit_def digits4_def isDigit_def)
  have "foldl sectionLine [] [''tribe 0987,a'', ''0987 status:x,l,n'']
      = foldl sectionLine [(newSection 1 ''tribe 0987,a'')\<lparr>Status := Some ''0987 status:x,l,n''\<rparr>] []"
    using sections_Cons_header[of "''tribe 0987,a''" "[''0987 status:x,l,n'']" "[]" "[]"]
      hdr3(1) kinds_exclusive(7)[OF st] sectionOf_status_only[OF st]
    by (simp del: foldl.simps)
  then show ?thesis unfolding SectionInput_def sp by (simp del: foldl.simps add: foldl_Nil)
qed

lemma example_passes: "punctuationPasses ''0987 status:x,l,n'' = ''0987 status:x,l,n''"
  by (simp add: punctuationPasses_def pass_defs pattern_defs)

lemma example_status:
  "scrubStatusLine (Some ''0987 status:x,l,n'') = Some ''0987 status:x,l n''"
proof -
  have "scrubStepResults ''0987 status:x,l,n'' = ''0987 status:x,l n''"
    by (simp add: scrubStepResults_def scan.simps pattern_defs)
  then show ?thesis
    by (simp add: scrubStatusLine_def len_def bytesOf_def example_passes TrimRightBackslash_def)
qed

lemma example_ParseText:
  "ParseText asciiLib example_text
   = Inr [(newSection 1 ''tribe 0987,a'')\<lparr>Status := Some ''0987 status:x,l n''\<rparr>]"
proof -
  have c: "textCheck example_text"
    by (simp add: textCheck_def example_text_def isascii_def byte_def)
  have s: "scrubSection asciiLib ((newSection 1 ''tribe 0987,a'')\<lparr>Status := Some ''0987 status:x,l,n''\<rparr>)
      = (newSection 1 ''tribe 0987,a'')\<lparr>Status := Some ''0987 status:x,l n''\<rparr>"
    by (simp add: scrubSection_def newSection_def example_status scrubMovementLine_def
        scrubFollowsLine_def scrubGoesToLine_def scrubFleetLine_def len_def)
  have l: "ToLower asciiLib = asciiLower" by (simp add: asciiLib_def)
  show ?thesis
    unfolding ParseText_ok[OF c] l example_lower example_compressed example_sections
    by (simp add: s)
qed

text \<open>
  A report whose first line starts with a blank: \<open>CompressSpaces\<close> keeps the blank,
  the line is no unit header, and \<open>ParseText\<close> returns no section.  Without the blank
  it returns the section of the tribe.
\<close>

lemma leading_blank_lower:
  "asciiLower '' Tribe 0987,a\<newline>0987 Status:x'' = '' tribe 0987,a\<newline>0987 status:x''"
  by (simp add: asciiLower_def)

lemma leading_blank_compressed:
  "CompressSpaces '' tribe 0987,a\<newline>0987 status:x'' = '' tribe 0987,a\<newline>0987 status:x''"
  by (simp add: CompressSpaces_def isBlank_def isSpaceDelimiter_def)

lemma leading_blank_sections: "SectionInput '' tribe 0987,a\<newline>0987 status:x'' = []"
proof -
  have sp: "splitLines '' tribe 0987,a\<newline>0987 status:x'' = ['' tribe 0987,a'', ''0987 status:x'']"
    by (simp add: splitLines_Cons splitLines_Nil)
  have h1: "\<not> IsUnitHeader '' tribe 0987,a''"
    by (simp add: IsUnitHeader_def rxCourierHeader_def rxElementHeader_def rxTribeHeader_def
        rxGarrisonHeader_def rxFleetHeader_def lit_def digits4_def)
  have h2: "\<not> IsUnitHeader ''0987 status:x''"
    using kinds_exclusive(7)[OF st3(1)] by simp
  show ?thesis
    unfolding SectionInput_def sp by (simp add: sectionLine_def h1 h2)
qed

lemma ParseText_leading_blank:
  "ParseText asciiLib '' Tribe 0987,a\<newline>0987 Status:x'' = Inr []"
proof -
  have c: "textCheck '' Tribe 0987,a\<newline>0987 Status:x''"
    by (simp add: textCheck_def isascii_def byte_def)
  have l: "ToLower asciiLib = asciiLower" by (simp add: asciiLib_def)
  show ?thesis
    unfolding ParseText_ok[OF c] l leading_blank_lower leading_blank_compressed
      leading_blank_sections
    by simp
qed

lemma ParseText_no_leading_blank:
  "ParseText asciiLib ''Tribe 0987,a\<newline>0987 Status:x''
   = Inr [(newSection 1 ''tribe 0987,a'')\<lparr>Status := Some ''0987 status:x''\<rparr>]"
proof -
  have c: "textCheck ''Tribe 0987,a\<newline>0987 Status:x''"
    by (simp add: textCheck_def isascii_def byte_def)
  have l: "ToLower asciiLib = asciiLower" by (simp add: asciiLib_def)
  have lo: "asciiLower ''Tribe 0987,a\<newline>0987 Status:x'' = ''tribe 0987,a\<newline>0987 status:x''"
    by (simp add: asciiLower_def)
  have co: "CompressSpaces ''tribe 0987,a\<newline>0987 status:x'' = ''tribe 0987,a\<newline>0987 status:x''"
    by (simp add: CompressSpaces_def isBlank_def isSpaceDelimiter_def)
  have sp: "splitLines ''tribe 0987,a\<newline>0987 status:x'' = [''tribe 0987,a'', ''0987 status:x'']"
    by (simp add: splitLines_Cons splitLines_Nil)
  have h2: "\<not> IsUnitHeader ''0987 status:x''"
    using kinds_exclusive(7)[OF st3(1)] by simp
  have se: "SectionInput ''tribe 0987,a\<newline>0987 status:x''
      = [(newSection 1 ''tribe 0987,a'')\<lparr>Status := Some ''0987 status:x''\<rparr>]"
    unfolding SectionInput_def sp
    using kinds_exclusive(7)[OF st3(1)]
    by (simp add: sectionLine_def hdr3(1) st3(1) onCurrent_def)
  have "scrubStepResults ''0987 status:x'' = ''0987 status:x''"
    by (simp add: scrubStepResults_def scan.simps pattern_defs)
  moreover have "punctuationPasses ''0987 status:x'' = ''0987 status:x''"
    by (simp add: punctuationPasses_def pass_defs pattern_defs)
  ultimately have st: "scrubStatusLine (Some ''0987 status:x'') = Some ''0987 status:x''"
    by (simp add: scrubStatusLine_def len_def bytesOf_def TrimRightBackslash_def)
  have s: "scrubSection asciiLib ((newSection 1 ''tribe 0987,a'')\<lparr>Status := Some ''0987 status:x''\<rparr>)
      = (newSection 1 ''tribe 0987,a'')\<lparr>Status := Some ''0987 status:x''\<rparr>"
    by (simp add: scrubSection_def newSection_def st scrubMovementLine_def
        scrubFollowsLine_def scrubGoesToLine_def scrubFleetLine_def len_def)
  show ?thesis
    unfolding ParseText_ok[OF c] l lo co se by (simp add: s)
qed

text \<open>
  C3, as amended.  An empty buffer passed to \<open>ParseSections\<close> gives \<open>ErrEmptyInput\<close>
  and no sections.  \<open>ParseText\<close> returns \<open>ErrUnknownFormat\<close> exactly when the input
  fails its check (more than three bytes, the first three in \<open>1..127\<close>), and has no other
  error; an input that passes the check gives the scrubbed sections and a nil error.
  \<open>ParseSections\<close> fails only with \<open>ErrEmptyInput\<close>, with \<open>ErrUnknownFormat\<close>, or
  with the error that \<open>docx.ReadBuffer\<close> returned for a Word document; on a non-empty
  input that is no Word document it returns what \<open>ParseText\<close> returns.
\<close>

theorem C3_parse_errors:
  "ParseSections lib docx [] = Inl ErrEmptyInput
   \<and> (ParseText lib input = Inl ErrUnknownFormat \<longleftrightarrow> \<not> textCheck input)
   \<and> (textCheck input \<longrightarrow>
        ParseText lib input
        = Inr (map (scrubSection lib) (SectionInput (CompressSpaces (ToLower lib input)))))
   \<and> (ParseText lib input' = Inl e \<longrightarrow> e = ErrUnknownFormat)
   \<and> (ParseSections lib docx input' = Inl e' \<longrightarrow>
        e' = ErrEmptyInput \<or> e' = ErrUnknownFormat
        \<or> (IsDocx docx input' \<and> ReadBuffer docx input' = Inl e'))
   \<and> (input \<noteq> [] \<and> \<not> IsDocx docx input \<longrightarrow>
        ParseSections lib docx input = ParseText lib input)"
proof (intro conjI impI)
  show "ParseSections lib docx [] = Inl ErrEmptyInput" by (rule ParseSections_empty)
  show "ParseText lib input = Inl ErrUnknownFormat \<longleftrightarrow> \<not> textCheck input"
    by (rule ParseText_error_iff)
  show "ParseText lib input
        = Inr (map (scrubSection lib) (SectionInput (CompressSpaces (ToLower lib input))))"
    if "textCheck input" using that by (rule ParseText_ok)
  show "e = ErrUnknownFormat" if "ParseText lib input' = Inl e"
    using that by (rule ParseText_only_error)
  show "e' = ErrEmptyInput \<or> e' = ErrUnknownFormat
        \<or> (IsDocx docx input' \<and> ReadBuffer docx input' = Inl e')"
    if "ParseSections lib docx input' = Inl e'"
    using that by (rule ParseSections_errors)
  show "ParseSections lib docx input = ParseText lib input"
    if "input \<noteq> [] \<and> \<not> IsDocx docx input"
    using that ParseSections_text by blast
qed

theorem C3_parse_errors_witness:
  "textCheck example_text
   \<and> ParseText asciiLib example_text
       = Inr [(newSection 1 ''tribe 0987,a'')\<lparr>Status := Some ''0987 status:x,l n''\<rparr>]
   \<and> ParseSections asciiLib noDocx example_text = ParseText asciiLib example_text
   \<and> ParseText asciiLib ''abc'' = Inl ErrUnknownFormat
   \<and> ParseSections asciiLib noDocx ''abc'' = Inl ErrUnknownFormat
   \<and> ParseSections asciiLib noDocx [] = Inl ErrEmptyInput"
proof -
  note t = C3_parse_errors[of asciiLib noDocx example_text "''abc''" ErrUnknownFormat
      ErrUnknownFormat]
  have c: "textCheck example_text"
    by (simp add: textCheck_def example_text_def isascii_def byte_def)
  have n: "example_text \<noteq> [] \<and> \<not> IsDocx noDocx example_text"
    by (simp add: example_text_def noDocx_def)
  have a: "ParseText asciiLib ''abc'' = Inl ErrUnknownFormat"
    by (simp add: ParseText_def textCheck_def)
  have b: "ParseSections asciiLib noDocx ''abc'' = Inl ErrUnknownFormat"
    by (simp add: ParseSections_def ParseDocx_def noDocx_def a)
  from t have t1: "ParseSections asciiLib noDocx [] = Inl ErrEmptyInput"
    and t6: "example_text \<noteq> [] \<and> \<not> IsDocx noDocx example_text \<longrightarrow>
        ParseSections asciiLib noDocx example_text = ParseText asciiLib example_text"
    by blast+
  from t6 n have "ParseSections asciiLib noDocx example_text = ParseText asciiLib example_text"
    by blast
  with c example_ParseText a b t1 show ?thesis by blast
qed

text \<open>
  The claim as the spec states it fails for an input of three ASCII bytes: its first
  three bytes are plain ASCII, and \<open>ParseText\<close> returns \<open>ErrUnknownFormat\<close>.
\<close>

theorem C3_three_bytes_counterexample:
  "firstThreeBytesASCII ''abc'' \<and> ParseText asciiLib ''abc'' = Inl ErrUnknownFormat
   \<and> \<not> (ParseText asciiLib ''abc'' = Inl ErrUnknownFormat \<longleftrightarrow> \<not> firstThreeBytesASCII ''abc'')"
  by (simp add: ParseText_def textCheck_def firstThreeBytesASCII_def byte_def)

end
